theory Spec2Isabelle
  imports Main "HOL-Library.Char_ord" "HOL-Library.List_Lexorder" "HOL-Library.Word"
    "HOL-Library.AList"
begin

section \<open>The balanced index (avl\_tree.h)\<close>

text \<open>
  A \<open>shared_ptr<AVLNode<T>>\<close> is either the null pointer or a node with the fields
  \<open>key\<close>, \<open>value\<close>, \<open>height\<close>, \<open>left\<close>, \<open>right\<close>, in the order of the class. The tree is
  never shared, so a pointer is modelled by the node it owns. Keys are \<open>std::string\<close>,
  compared bytewise as unsigned characters: the lexicographic order on \<open>char list\<close>.
  The \<open>int\<close> height is modelled by an unbounded integer.
\<close>

datatype 'v node_ptr = Null | Node string 'v int "'v node_ptr" "'v node_ptr"

text \<open>\<open>AVLTree::height\<close> and \<open>AVLTree::getBalance\<close>: the stored field, 0 for null.\<close>

fun height :: "'v node_ptr \<Rightarrow> int" where
  "height Null = 0"
| "height (Node k v h l r) = h"

fun getBalance :: "'v node_ptr \<Rightarrow> int" where
  "getBalance Null = 0"
| "getBalance (Node k v h l r) = height l - height r"

text \<open>
  The rotations dereference \<open>y->left\<close> (resp. \<open>x->right\<close>) without a check; on a null
  pointer the program has no defined result, which is \<open>None\<close> here.
\<close>

fun rightRotate :: "'v node_ptr \<Rightarrow> 'v node_ptr option" where
  "rightRotate (Node yk yv yh (Node xk xv xh xl T2) yr) =
     (let y = Node yk yv (max (height T2) (height yr) + 1) T2 yr
      in Some (Node xk xv (max (height xl) (height y) + 1) xl y))"
| "rightRotate _ = None"

fun leftRotate :: "'v node_ptr \<Rightarrow> 'v node_ptr option" where
  "leftRotate (Node xk xv xh xl (Node yk yv yh T2 yr)) =
     (let x = Node xk xv (max (height xl) (height T2) + 1) xl T2
      in Some (Node yk yv (max (height x) (height yr) + 1) x yr))"
| "leftRotate _ = None"

text \<open>
  The part of the private \<open>insert\<close> after the recursive call: the height of the node is
  recomputed, then the four rotation cases are tried in the order of the source. The
  tests \<open>balance > 1\<close> and \<open>balance < -1\<close> exclude each other, so the four \<open>if\<close>s of the
  source are grouped by them; \<open>node->left->key\<close> (resp. \<open>node->right->key\<close>) is read only
  under the first (resp. second) test.
\<close>

definition rebalance ::
  "string \<Rightarrow> 'v \<Rightarrow> 'v node_ptr \<Rightarrow> 'v node_ptr \<Rightarrow> string \<Rightarrow> 'v node_ptr option" where
  "rebalance k v l r key =
     (let node = Node k v (1 + max (height l) (height r)) l r;
          balance = getBalance node
      in if balance > 1 then
           (case l of
              Null \<Rightarrow> None
            | Node lk lv lh ll lr \<Rightarrow>
                if key < lk then rightRotate node
                else if key > lk then
                  (case leftRotate l of
                     None \<Rightarrow> None
                   | Some l' \<Rightarrow> rightRotate (Node k v (1 + max (height l) (height r)) l' r))
                else Some node)
         else if balance < - 1 then
           (case r of
              Null \<Rightarrow> None
            | Node rk rv rh rl rr \<Rightarrow>
                if key > rk then leftRotate node
                else if key < rk then
                  (case rightRotate r of
                     None \<Rightarrow> None
                   | Some r' \<Rightarrow> leftRotate (Node k v (1 + max (height l) (height r)) l r'))
                else Some node)
         else Some node)"

fun insert_node :: "'v node_ptr \<Rightarrow> string \<Rightarrow> 'v \<Rightarrow> 'v node_ptr option" where
  "insert_node Null key val = Some (Node key val 1 Null Null)"
| "insert_node (Node k v h l r) key val =
     (if key < k then
        (case insert_node l key val of None \<Rightarrow> None | Some l' \<Rightarrow> rebalance k v l' r key)
      else if key > k then
        (case insert_node r key val of None \<Rightarrow> None | Some r' \<Rightarrow> rebalance k v l r' key)
      else Some (Node k val h l r))"

text \<open>The private \<open>find\<close> (named \<open>find_node\<close> here): the node holding the key, or null.\<close>

fun find_node :: "'v node_ptr \<Rightarrow> string \<Rightarrow> 'v node_ptr" where
  "find_node Null key = Null"
| "find_node (Node k v h l r) key =
     (if k = key then Node k v h l r
      else if key < k then find_node l key
      else find_node r key)"

text \<open>
  An \<open>AVLTree<T>\<close> has the single field \<open>root\<close>; the public \<open>insert\<close> replaces the root by
  the result of the private one. A sequence of calls of the public \<open>insert\<close> on a tree:
\<close>

type_synonym 'v AVLTree = "'v node_ptr"

fun insert_all :: "'v AVLTree \<Rightarrow> (string \<times> 'v) list \<Rightarrow> 'v AVLTree option" where
  "insert_all root [] = Some root"
| "insert_all root ((key, val) # kvs) =
     (case insert_node root key val of None \<Rightarrow> None | Some root' \<Rightarrow> insert_all root' kvs)"

text \<open>What a caller reads from the result of \<open>find\<close>: the value of the node, if any.\<close>

definition find_value :: "'v AVLTree \<Rightarrow> string \<Rightarrow> 'v option" where
  "find_value root key = (case find_node root key of Null \<Rightarrow> None | Node k v h l r \<Rightarrow> Some v)"

subsection \<open>Invariants\<close>

text \<open>The height of a subtree counted on its shape, and the keys it holds.\<close>

fun real_height :: "'v node_ptr \<Rightarrow> int" where
  "real_height Null = 0"
| "real_height (Node k v h l r) = 1 + max (real_height l) (real_height r)"

fun keys_of :: "'v node_ptr \<Rightarrow> string set" where
  "keys_of Null = {}"
| "keys_of (Node k v h l r) = Set.insert k (keys_of l \<union> keys_of r)"

text \<open>
  Every node is balanced, and its stored height is the height of its subtree.
\<close>

fun balanced :: "'v node_ptr \<Rightarrow> bool" where
  "balanced Null = True"
| "balanced (Node k v h l r) =
     (\<bar>real_height l - real_height r\<bar> \<le> 1 \<and> h = 1 + max (real_height l) (real_height r)
      \<and> balanced l \<and> balanced r)"

text \<open>The same on the stored heights, which is what the code reads.\<close>

fun avl :: "'v node_ptr \<Rightarrow> bool" where
  "avl Null = True"
| "avl (Node k v h l r) =
     (avl l \<and> avl r \<and> h = 1 + max (height l) (height r)
      \<and> height l - height r \<le> 1 \<and> height r - height l \<le> 1)"

fun bst :: "'v node_ptr \<Rightarrow> bool" where
  "bst Null = True"
| "bst (Node k v h l r) =
     (bst l \<and> bst r \<and> (\<forall>x \<in> keys_of l. x < k) \<and> (\<forall>x \<in> keys_of r. k < x))"

text \<open>
  After an insertion that made a subtree higher, the side the key went to is the
  higher one.
\<close>

fun grew :: "string \<Rightarrow> 'v node_ptr \<Rightarrow> bool" where
  "grew key Null = False"
| "grew key (Node k v h l r) =
     ((key < k \<and> height l = height r + 1) \<or> (k < key \<and> height r = height l + 1))"


text \<open>Two trees with the same keys and the same lookups.\<close>

definition same_content :: "'v node_ptr \<Rightarrow> 'v node_ptr \<Rightarrow> bool" where
  "same_content t t' \<longleftrightarrow> keys_of t' = keys_of t \<and> (\<forall>x. find_value t' x = find_value t x)"

section \<open>The text normalizer (text\_processor.h)\<close>

text \<open>
  \<open>::tolower\<close> in the "C" locale: the letters A to Z are mapped to a to z, every other
  character to itself.
\<close>

definition tolower :: "char \<Rightarrow> char" where
  "tolower c = (if CHR ''A'' \<le> c \<and> c \<le> CHR ''Z'' then char_of (of_char c + (32::nat)) else c)"

text \<open>The private helpers of \<open>TextProcessor\<close>, in the order of the class.\<close>

definition endsWith :: "string \<Rightarrow> string \<Rightarrow> bool" where
  "endsWith str suffix =
     (if length str < length suffix then False
      else drop (length str - length suffix) str = suffix)"

text \<open>
  \<open>isConsonant\<close> is only called with \<open>i < str.length()\<close>: by the loops below, and after
  the length tests of \<open>endsWithDoubleConsonant\<close> and \<open>endsWithCVC\<close>.
\<close>

fun isConsonant :: "string \<Rightarrow> nat \<Rightarrow> bool" where
  "isConsonant str i =
     (let c = str ! i
      in if c = CHR ''a'' \<or> c = CHR ''e'' \<or> c = CHR ''i'' \<or> c = CHR ''o'' \<or> c = CHR ''u''
         then False
         else if c = CHR ''y'' then (if i = 0 then True else \<not> isConsonant str (i - 1))
         else True)"

text \<open>The \<open>for\<close> loop of \<open>measureConsecutiveVC\<close>, with its variables \<open>i\<close>, \<open>m\<close>, \<open>prevC\<close>.\<close>

function measure_loop :: "string \<Rightarrow> nat \<Rightarrow> nat \<Rightarrow> bool \<Rightarrow> nat" where
  "measure_loop str i m prevC =
     (if i < length str then
        (let isC = isConsonant str i
         in measure_loop str (i + 1) (if prevC \<and> \<not> isC then m + 1 else m) isC)
      else m)"
  by pat_completeness auto
termination
  by (relation "measure (\<lambda>(str, i, m, prevC). length str - i)") auto

definition measureConsecutiveVC :: "string \<Rightarrow> nat" where
  "measureConsecutiveVC str = measure_loop str 0 0 True"

text \<open>The \<open>for\<close> loop of \<open>hasVowel\<close>, which returns at the first vowel.\<close>

function hasVowel_loop :: "string \<Rightarrow> nat \<Rightarrow> bool" where
  "hasVowel_loop str i =
     (if i < length str then
        (if \<not> isConsonant str i then True else hasVowel_loop str (i + 1))
      else False)"
  by pat_completeness auto
termination
  by (relation "measure (\<lambda>(str, i). length str - i)") auto

definition hasVowel :: "string \<Rightarrow> bool" where
  "hasVowel str = hasVowel_loop str 0"

definition endsWithDoubleConsonant :: "string \<Rightarrow> bool" where
  "endsWithDoubleConsonant str =
     (if length str < 2 then False
      else str ! (length str - 1) = str ! (length str - 2) \<and> isConsonant str (length str - 1))"

definition endsWithCVC :: "string \<Rightarrow> bool" where
  "endsWithCVC str =
     (if length str < 3 then False
      else let j = length str - 1
           in isConsonant str j \<and> \<not> isConsonant str (j - 1) \<and> isConsonant str (j - 2)
              \<and> str ! j \<noteq> CHR ''w'' \<and> str ! j \<noteq> CHR ''x'' \<and> str ! j \<noteq> CHR ''y'')"

definition replaceSuffix :: "string \<Rightarrow> string \<Rightarrow> string \<Rightarrow> string" where
  "replaceSuffix str suffix replacement =
     (if length str \<ge> length suffix \<and> drop (length str - length suffix) str = suffix
      then take (length str - length suffix) str @ replacement
      else str)"

text \<open>
  The three steps modify the string in place; here they return the new string.
  \<open>pop_back\<close> is \<open>butlast\<close>, and \<open>substr(0, n)\<close> is \<open>take n\<close>.
\<close>

definition step1a :: "string \<Rightarrow> string" where
  "step1a str =
     (if endsWith str ''sses'' then replaceSuffix str ''sses'' ''ss''
      else if endsWith str ''ies'' then replaceSuffix str ''ies'' ''i''
      else if endsWith str ''ss'' then str
      else if endsWith str ''s'' then butlast str
      else str)"

definition step1b :: "string \<Rightarrow> string" where
  "step1b str =
     (if endsWith str ''eed'' then
        (if measureConsecutiveVC (take (length str - 3) str) > 0
         then replaceSuffix str ''eed'' ''ee'' else str)
      else if (endsWith str ''ed'' \<and> hasVowel (take (length str - 2) str)) \<or>
              (endsWith str ''ing'' \<and> hasVowel (take (length str - 3) str)) then
        (let str1 = (if endsWith str ''ed'' then replaceSuffix str ''ed'' ''''
                     else replaceSuffix str ''ing'' '''')
         in if endsWith str1 ''at'' \<or> endsWith str1 ''bl'' \<or> endsWith str1 ''iz''
            then str1 @ ''e''
            else if endsWithDoubleConsonant str1 \<and>
                    \<not> endsWith str1 ''l'' \<and> \<not> endsWith str1 ''s'' \<and> \<not> endsWith str1 ''z''
            then butlast str1
            else if measureConsecutiveVC str1 = 1 \<and> endsWithCVC str1
            then str1 @ ''e''
            else str1)
      else str)"

definition step1c :: "string \<Rightarrow> string" where
  "step1c str =
     (if endsWith str ''y'' \<and> hasVowel (take (length str - 1) str)
      then str[length str - 1 := CHR ''i'']
      else str)"

text \<open>The stopword list of the constructor, as the source file gives it.\<close>

definition stopwords :: "string set" where
  "stopwords = {''a'', ''about'', ''above'', ''after'', ''again'', ''against'', ''all'',
     ''am'', ''an'', ''and''}"

definition isStopword :: "string \<Rightarrow> bool" where
  "isStopword word \<longleftrightarrow> word \<in> stopwords"

definition stem :: "string \<Rightarrow> string" where
  "stem word =
     (if length word \<le> 2 then word
      else step1c (step1b (step1a (map tolower word))))"

definition processWord :: "string \<Rightarrow> string" where
  "processWord word = (if isStopword word then '''' else stem word)"


section \<open>Persistence of a posting map (avl\_tree.h)\<close>

text \<open>
  The indices are \<open>AVLTree<std::unordered_map<std::string, int>>\<close>. A posting map is
  modelled by the list of its pairs in iteration order (which the C++ library leaves
  open), with distinct keys; \<open>map[key] = value\<close> is \<open>AList.update\<close>. The counts are
  32-bit \<open>int\<close>s.
\<close>

type_synonym posting_map = "(string \<times> 32 word) list"

text \<open>
  The bytes of an object written by \<open>out.write(reinterpret_cast<const char*>(&x), sizeof(x))\<close>
  on a little-endian platform: \<open>n\<close> characters, lowest first. A \<open>size_t\<close> has 8 bytes
  and an \<open>int\<close> 4 (LP64).
\<close>

fun le_bytes :: "nat \<Rightarrow> nat \<Rightarrow> string" where
  "le_bytes 0 x = []"
| "le_bytes (Suc n) x = char_of x # le_bytes n (x div 256)"

fun from_le :: "string \<Rightarrow> nat" where
  "from_le [] = 0"
| "from_le (c # cs) = of_char c + 256 * from_le cs"

text \<open>
  \<open>saveMap\<close>: the output stream is the string of the bytes written so far, and
  \<open>out.write\<close> appends to it.
\<close>

fun saveMap_loop :: "posting_map \<Rightarrow> string \<Rightarrow> string" where
  "saveMap_loop [] out = out"
| "saveMap_loop ((first, second) # rest) out =
     (let keyLength = length first;
          out1 = out @ le_bytes 8 keyLength;
          out2 = out1 @ first;
          out3 = out2 @ le_bytes 4 (unat second)
      in saveMap_loop rest out3)"

definition saveMap :: "posting_map \<Rightarrow> string \<Rightarrow> string" where
  "saveMap m out = (let sz = length m in saveMap_loop m (out @ le_bytes 8 sz))"

text \<open>
  An input stream is \<open>None\<close> once its fail bit is set (the file could not be opened, or
  a read asked for more bytes than were left), and otherwise the bytes not yet read.
  \<open>in.read(buf, n)\<close> on a failed stream or with fewer than \<open>n\<close> bytes left does not fill
  the buffer: the result is \<open>None\<close>.
\<close>

type_synonym ifstream = "string option"

definition stream_read :: "nat \<Rightarrow> ifstream \<Rightarrow> string option \<times> ifstream" where
  "stream_read n ins =
     (case ins of
        None \<Rightarrow> (None, None)
      | Some bytes \<Rightarrow>
          if n \<le> length bytes then (Some (take n bytes), Some (drop n bytes))
          else (None, None))"

text \<open>
  How a call ends: it returns, it throws a \<open>std::exception\<close> (with the state it leaves
  behind), or it has no defined behaviour.
\<close>

datatype 'a outcome = Returns 'a | Throws 'a | Undefined

text \<open>
  \<open>loadMap\<close> (\<open>m\<close> and \<open>sz\<close> are the \<open>map\<close> and \<open>size\<close> of the source; the map is
  cleared before the loop). The variables \<open>size\<close>, \<open>keyLength\<close> and \<open>value\<close> are not
  initialised, and the result of \<open>read\<close> is never tested: after a failed read the
  program uses an indeterminate value (also after a failed read of the key, since the
  read of \<open>value\<close> that follows fails too), which is \<open>Undefined\<close>.
  \<open>std::string key(keyLength, '\0')\<close> throws \<open>std::length_error\<close> or \<open>std::bad_alloc\<close>
  when the string cannot be built; \<open>max_alloc\<close> is the longest string the platform can
  build. At a throw the map holds the entries read so far.
\<close>

function loadMap_loop ::
  "nat \<Rightarrow> nat \<Rightarrow> nat \<Rightarrow> posting_map \<Rightarrow> ifstream \<Rightarrow> posting_map outcome" where
  "loadMap_loop max_alloc i sz m ins =
     (if i < sz then
        (case stream_read 8 ins of
           (None, ins1) \<Rightarrow> Undefined
         | (Some lenBytes, ins1) \<Rightarrow>
             (let keyLength = from_le lenBytes
              in if keyLength > max_alloc then Throws m
                 else
                   (case stream_read keyLength ins1 of
                      (None, ins2) \<Rightarrow> Undefined
                    | (Some key, ins2) \<Rightarrow>
                        (case stream_read 4 ins2 of
                           (None, ins3) \<Rightarrow> Undefined
                         | (Some valueBytes, ins3) \<Rightarrow>
                             loadMap_loop max_alloc (i + 1) sz
                               (AList.update key (word_of_nat (from_le valueBytes)) m) ins3))))
      else Returns m)"
  by pat_completeness auto
termination
  by (relation "measure (\<lambda>(max_alloc, i, sz, m, ins). sz - i)") auto

definition loadMap :: "nat \<Rightarrow> posting_map \<Rightarrow> ifstream \<Rightarrow> posting_map outcome" where
  "loadMap max_alloc m ins =
     (case stream_read 8 ins of
        (None, ins1) \<Rightarrow> Undefined
      | (Some sizeBytes, ins1) \<Rightarrow> loadMap_loop max_alloc 0 (from_le sizeBytes) [] ins1)"

text \<open>\<open>AVLNode::save\<close> and \<open>AVLNode::load\<close> for \<open>T = std::unordered_map<std::string, int>\<close>.\<close>

fun AVLNode_save :: "posting_map node_ptr \<Rightarrow> string \<Rightarrow> string" where
  "AVLNode_save (Node k v h l r) out = saveMap v out"
| "AVLNode_save Null out = out"

text \<open>The private \<open>AVLTree::save\<close> and \<open>AVLTree::load\<close>: only the root is visited.\<close>

definition AVLTree_save :: "posting_map AVLTree \<Rightarrow> string \<Rightarrow> string" where
  "AVLTree_save root out = (if root \<noteq> Null then AVLNode_save root out else out)"

definition AVLTree_load :: "nat \<Rightarrow> posting_map AVLTree \<Rightarrow> ifstream \<Rightarrow> posting_map AVLTree outcome" where
  "AVLTree_load max_alloc root ins =
     (case root of
        Null \<Rightarrow> Returns Null
      | Node k v h l r \<Rightarrow>
          (case loadMap max_alloc v ins of
             Returns v' \<Rightarrow> Returns (Node k v' h l r)
           | Throws v' \<Rightarrow> Throws (Node k v' h l r)
           | Undefined \<Rightarrow> Undefined))"

text \<open>
  The file system maps a path to the contents of the file there. Opening a
  \<open>std::ofstream\<close> creates or empties the file (it is assumed that the path can be
  written); opening a \<open>std::ifstream\<close> on a missing file gives a failed stream.
\<close>

type_synonym filesystem = "string \<rightharpoonup> string"

definition saveToFile :: "filesystem \<Rightarrow> string \<Rightarrow> posting_map AVLTree \<Rightarrow> filesystem" where
  "saveToFile fs filename root = fs(filename \<mapsto> AVLTree_save root [])"

definition loadFromFile ::
  "nat \<Rightarrow> filesystem \<Rightarrow> string \<Rightarrow> posting_map AVLTree \<Rightarrow> posting_map AVLTree outcome" where
  "loadFromFile max_alloc fs filename root = AVLTree_load max_alloc root (fs filename)"

text \<open>
  The format of the specification, to compare with: for each entry the key length and
  the key bytes, then the number of postings, then for each posting the length and the
  bytes of the document id and an 8-byte count. The lengths and the number of
  postings, whose width the specification leaves open, take 8 bytes as in the code.
\<close>

definition spec_posting_bytes :: "string \<times> 32 word \<Rightarrow> string" where
  "spec_posting_bytes p = le_bytes 8 (length (fst p)) @ fst p @ le_bytes 8 (unat (snd p))"

definition spec_entry_bytes :: "string \<times> posting_map \<Rightarrow> string" where
  "spec_entry_bytes e =
     le_bytes 8 (length (fst e)) @ fst e @ le_bytes 8 (length (snd e))
       @ concat (map spec_posting_bytes (snd e))"

definition spec_format :: "(string \<times> posting_map) list \<Rightarrow> string" where
  "spec_format entries = concat (map spec_entry_bytes entries)"

text \<open>What \<open>saveMap\<close> writes for one posting, and for a posting map.\<close>

definition posting_bytes :: "string \<times> 32 word \<Rightarrow> string" where
  "posting_bytes p = le_bytes 8 (length (fst p)) @ fst p @ le_bytes 4 (unat (snd p))"

definition posting_map_bytes :: "posting_map \<Rightarrow> string" where
  "posting_map_bytes m = le_bytes 8 (length m) @ concat (map posting_bytes m)"

text \<open>Two trees that differ at most in the value of the root node.\<close>

fun same_but_root_value :: "'v node_ptr \<Rightarrow> 'v node_ptr \<Rightarrow> bool" where
  "same_but_root_value Null Null = True"
| "same_but_root_value (Node k v h l r) (Node k' v' h' l' r') =
     (k = k' \<and> h = h' \<and> l = l' \<and> r = r')"
| "same_but_root_value _ _ = False"

section \<open>The index manager (SearchEngine::WordMap)\<close>

record WordMap =
  orgIndex :: "posting_map AVLTree"
  nameIndex :: "posting_map AVLTree"
  wordIndex :: "posting_map AVLTree"

text \<open>A \<open>WordMap\<close> as its constructor leaves it: three empty trees.\<close>

definition WordMap_new :: WordMap where
  "WordMap_new = \<lparr>orgIndex = Null, nameIndex = Null, wordIndex = Null\<rparr>"

text \<open>
  Modelled from the spec: the overload \<open>find(key, files)\<close> of \<open>AVLTree\<close> that \<open>WordMap\<close>
  calls is not in the source; by the specification \<open>find\<close> gives the value or reports
  absence, and an absent term starts from an empty map. It is taken to copy the value
  of the node found into \<open>files\<close> and to tell whether there was one.
\<close>

definition find_into :: "'v AVLTree \<Rightarrow> string \<Rightarrow> 'v \<Rightarrow> bool \<times> 'v" where
  "find_into root key files =
     (case find_node root key of Null \<Rightarrow> (False, files) | Node k v h l r \<Rightarrow> (True, v))"

text \<open>
  \<open>files[filepath]++\<close>: a missing entry is created with the count 0, then the count
  is incremented (the increment of the largest \<open>int\<close>, which C++ leaves undefined, wraps
  around here).
\<close>

definition increment :: "posting_map \<Rightarrow> string \<Rightarrow> posting_map" where
  "increment files filepath =
     AList.update filepath ((case map_of files filepath of None \<Rightarrow> 0 | Some c \<Rightarrow> c) + 1) files"

definition associate :: "posting_map AVLTree \<Rightarrow> string \<Rightarrow> string \<Rightarrow> posting_map AVLTree option" where
  "associate index term filepath =
     (let files = [];
          (found, files1) = find_into index term files;
          files2 = (if \<not> found then [] else files1)
      in insert_node index term (increment files2 filepath))"

definition associateOrg :: "WordMap \<Rightarrow> string \<Rightarrow> string \<Rightarrow> WordMap option" where
  "associateOrg wm org filepath =
     (case associate (orgIndex wm) org filepath of
        None \<Rightarrow> None
      | Some t \<Rightarrow> Some (wm\<lparr>orgIndex := t\<rparr>))"

definition associateName :: "WordMap \<Rightarrow> string \<Rightarrow> string \<Rightarrow> WordMap option" where
  "associateName wm name filepath =
     (case associate (nameIndex wm) name filepath of
        None \<Rightarrow> None
      | Some t \<Rightarrow> Some (wm\<lparr>nameIndex := t\<rparr>))"

definition associateWord :: "WordMap \<Rightarrow> string \<Rightarrow> string \<Rightarrow> WordMap option" where
  "associateWord wm word filepath =
     (if word = [] then Some wm
      else
        (case associate (wordIndex wm) word filepath of
           None \<Rightarrow> None
         | Some t \<Rightarrow> Some (wm\<lparr>wordIndex := t\<rparr>)))"

text \<open>
  Modelled from the spec: the members \<open>load(const std::string&)\<close> and
  \<open>save(const std::string&)\<close> of \<open>AVLTree\<close> that \<open>WordMap\<close> calls are not in the source
  (the class has only the private \<open>load(std::ifstream&)\<close> and \<open>save(std::ofstream&)\<close>, and
  \<open>loadFromFile\<close> and \<open>saveToFile\<close>, which nothing calls). By the specification, \<open>load\<close>
  reads a file in the format above (\<open>spec_format\<close>), re-inserts every persisted pair of
  a key and a posting map through \<open>insert\<close>, and fails on a malformed or truncated
  file. \<open>spec_read\<close> takes the next \<open>n\<close> bytes of a file, if there are that many.
\<close>

definition spec_read :: "nat \<Rightarrow> string \<Rightarrow> (string \<times> string) option" where
  "spec_read n bytes =
     (if n \<le> length bytes then Some (take n bytes, drop n bytes) else None)"

text \<open>
  Modelled from the spec: \<open>n\<close> postings, each the length of the document id, its bytes
  and an 8-byte count; the result is \<open>None\<close> when the bytes end too early. The postings
  are kept as they are listed.
\<close>

fun spec_decode_postings :: "nat \<Rightarrow> string \<Rightarrow> (posting_map \<times> string) option" where
  "spec_decode_postings n bytes =
     (if n = 0 then Some ([], bytes)
      else
        (case spec_read 8 bytes of
           None \<Rightarrow> None
         | Some (lenBytes, bytes1) \<Rightarrow>
             (case spec_read (from_le lenBytes) bytes1 of
                None \<Rightarrow> None
              | Some (doc, bytes2) \<Rightarrow>
                  (case spec_read 8 bytes2 of
                     None \<Rightarrow> None
                   | Some (countBytes, bytes3) \<Rightarrow>
                       (case spec_decode_postings (n - 1) bytes3 of
                          None \<Rightarrow> None
                        | Some (ps, rest) \<Rightarrow>
                            Some ((doc, word_of_nat (from_le countBytes)) # ps, rest))))))"

text \<open>
  Modelled from the spec: the entries of a file, each the key length, the key bytes,
  the number of postings and the postings, up to the end of the file; the result is
  \<open>None\<close> for a malformed or truncated file. The test that the rest is shorter than
  the bytes read from always holds (an entry takes at least 16 bytes); it shows
  that the recursion ends.
\<close>

function spec_decode :: "string \<Rightarrow> (string \<times> posting_map) list option" where
  "spec_decode bytes =
     (if bytes = [] then Some []
      else
        (case spec_read 8 bytes of
           None \<Rightarrow> None
         | Some (lenBytes, bytes1) \<Rightarrow>
             (case spec_read (from_le lenBytes) bytes1 of
                None \<Rightarrow> None
              | Some (key, bytes2) \<Rightarrow>
                  (case spec_read 8 bytes2 of
                     None \<Rightarrow> None
                   | Some (countBytes, bytes3) \<Rightarrow>
                       (case spec_decode_postings (from_le countBytes) bytes3 of
                          None \<Rightarrow> None
                        | Some (ps, rest) \<Rightarrow>
                            if length rest < length bytes then
                              (case spec_decode rest of
                                 None \<Rightarrow> None
                               | Some entries \<Rightarrow> Some ((key, ps) # entries))
                            else None)))))"
  by pat_completeness auto
termination
  by (relation "measure length") auto

text \<open>
  Modelled from the spec: \<open>AVLTree::load(const std::string&)\<close>. A missing file and a
  file that does not decode make the load fail; the failure is an exception (the
  \<open>try\<close> block of \<open>WordMap::load\<close> catches \<open>std::exception\<close>), which leaves the tree as it
  was. Otherwise every entry of the file is inserted into the tree, in the order of
  the file.
\<close>

definition AVLTree_load_path ::
  "filesystem \<Rightarrow> string \<Rightarrow> posting_map AVLTree \<Rightarrow> posting_map AVLTree outcome" where
  "AVLTree_load_path fs filename root =
     (case fs filename of
        None \<Rightarrow> Throws root
      | Some bytes \<Rightarrow>
          (case spec_decode bytes of
             None \<Rightarrow> Throws root
           | Some entries \<Rightarrow>
               (case insert_all root entries of
                  None \<Rightarrow> Undefined
                | Some root' \<Rightarrow> Returns root')))"

text \<open>A file that this load fails on: it is missing, or it does not decode.\<close>

definition missing_or_corrupt :: "filesystem \<Rightarrow> string \<Rightarrow> bool" where
  "missing_or_corrupt fs filename =
     (case fs filename of None \<Rightarrow> True | Some bytes \<Rightarrow> spec_decode bytes = None)"

text \<open>
  \<open>WordMap::load\<close>, as the source has it. The member \<open>load\<close> of the three indices, which
  the source of \<open>AVLTree\<close> lacks, is the parameter \<open>index_load\<close> (a path and the tree give
  the outcome of the call). An exception of a call is caught and gives \<open>false\<close>; the
  indices loaded before it stay loaded. The parameters \<open>filenamepath\<close> and \<open>fsavePath\<close>
  are not used.
\<close>

definition WordMap_load ::
  "(string \<Rightarrow> posting_map AVLTree \<Rightarrow> posting_map AVLTree outcome) \<Rightarrow> WordMap
     \<Rightarrow> string \<Rightarrow> string \<Rightarrow> string \<Rightarrow> string \<Rightarrow> string \<Rightarrow> (bool \<times> WordMap) outcome" where
  "WordMap_load index_load wm filenamepath osavePath nsavePath wsavePath fsavePath =
     (case index_load osavePath (orgIndex wm) of
        Undefined \<Rightarrow> Undefined
      | Throws t \<Rightarrow> Returns (False, wm\<lparr>orgIndex := t\<rparr>)
      | Returns t1 \<Rightarrow>
          (let wm1 = wm\<lparr>orgIndex := t1\<rparr>
           in case index_load nsavePath (nameIndex wm1) of
                Undefined \<Rightarrow> Undefined
              | Throws t \<Rightarrow> Returns (False, wm1\<lparr>nameIndex := t\<rparr>)
              | Returns t2 \<Rightarrow>
                  (let wm2 = wm1\<lparr>nameIndex := t2\<rparr>
                   in case index_load wsavePath (wordIndex wm2) of
                        Undefined \<Rightarrow> Undefined
                      | Throws t \<Rightarrow> Returns (False, wm2\<lparr>wordIndex := t\<rparr>)
                      | Returns t3 \<Rightarrow> Returns (True, wm2\<lparr>wordIndex := t3\<rparr>))))"

text \<open>
  \<open>WordMap::save\<close>, as the source has it. The member \<open>save\<close> of the three indices, which
  the source of \<open>AVLTree\<close> lacks, is the parameter \<open>index_save\<close> (the file system, a path
  and the tree give the file system after the call).
\<close>

definition WordMap_save ::
  "(filesystem \<Rightarrow> string \<Rightarrow> posting_map AVLTree \<Rightarrow> filesystem) \<Rightarrow> filesystem \<Rightarrow> WordMap
     \<Rightarrow> string \<Rightarrow> string \<Rightarrow> string \<Rightarrow> string \<Rightarrow> string \<Rightarrow> filesystem" where
  "WordMap_save index_save fs wm filenamepath osavePath nsavePath wsavePath fsavePath =
     (let fs1 = index_save fs osavePath (orgIndex wm);
          fs2 = index_save fs1 nsavePath (nameIndex wm)
      in index_save fs2 wsavePath (wordIndex wm))"

definition getFilesByWord :: "WordMap \<Rightarrow> string \<Rightarrow> posting_map" where
  "getFilesByWord wm word = snd (find_into (wordIndex wm) word [])"

definition getOtherFilesByWord :: "WordMap \<Rightarrow> string \<Rightarrow> posting_map" where
  "getOtherFilesByWord wm word = getFilesByWord wm word"

text \<open>
  The documents that an index lists for a term (read as \<open>getFilesByWord\<close> reads
  them), and the invariants of the three indices of a \<open>WordMap\<close>.
\<close>

definition docs_of :: "posting_map AVLTree \<Rightarrow> string \<Rightarrow> string set" where
  "docs_of index term = fst ` set (snd (find_into index term []))"

definition wf_WordMap :: "WordMap \<Rightarrow> bool" where
  "wf_WordMap wm \<longleftrightarrow>
     avl (orgIndex wm) \<and> bst (orgIndex wm) \<and> avl (nameIndex wm) \<and> bst (nameIndex wm)
     \<and> avl (wordIndex wm) \<and> bst (wordIndex wm)"

section \<open>The search orchestrator (searchEngine.cpp)\<close>

text \<open>
  \<open>buildFromScratch\<close>. The directory walk and \<open>getRelevantData\<close> are outside the source:
  the corpus is the list of the regular files found, each with the three word sets
  that \<open>getRelevantData\<close> returns for it (organisations, persons, body words), listed in
  iteration order.
\<close>

fun index_orgs :: "WordMap \<Rightarrow> string list \<Rightarrow> string \<Rightarrow> WordMap option" where
  "index_orgs wm [] filePath = Some wm"
| "index_orgs wm (word # ws) filePath =
     (let lowerWord = map tolower word
      in case associateOrg wm lowerWord filePath of
           None \<Rightarrow> None
         | Some wm' \<Rightarrow> index_orgs wm' ws filePath)"

fun index_names :: "WordMap \<Rightarrow> string list \<Rightarrow> string \<Rightarrow> WordMap option" where
  "index_names wm [] filePath = Some wm"
| "index_names wm (word # ws) filePath =
     (let lowerWord = map tolower word
      in case associateName wm lowerWord filePath of
           None \<Rightarrow> None
         | Some wm' \<Rightarrow> index_names wm' ws filePath)"

fun index_words :: "WordMap \<Rightarrow> string list \<Rightarrow> string \<Rightarrow> WordMap option" where
  "index_words wm [] filePath = Some wm"
| "index_words wm (word # ws) filePath =
     (let processedWord = processWord word
      in if processedWord \<noteq> [] then
           (case associateWord wm processedWord filePath of
              None \<Rightarrow> None
            | Some wm' \<Rightarrow> index_words wm' ws filePath)
         else index_words wm ws filePath)"

type_synonym corpus_file = "string \<times> string list \<times> string list \<times> string list"

fun buildFromScratch :: "WordMap \<Rightarrow> corpus_file list \<Rightarrow> WordMap option" where
  "buildFromScratch wm [] = Some wm"
| "buildFromScratch wm ((filePath, orgs, persons, body) # entries) =
     (case index_orgs wm orgs filePath of
        None \<Rightarrow> None
      | Some wm1 \<Rightarrow>
          (case index_names wm1 persons filePath of
             None \<Rightarrow> None
           | Some wm2 \<Rightarrow>
               (case index_words wm2 body filePath of
                  None \<Rightarrow> None
                | Some wm3 \<Rightarrow> buildFromScratch wm3 entries)))"

text \<open>
  \<open>parse\<close>. \<open>iss >> term\<close> skips white space (\<open>isspace\<close> in the "C" locale), then takes
  the characters up to the next white space; it fails, and the loop ends, when no
  character is left.
\<close>

definition isspace :: "char \<Rightarrow> bool" where
  "isspace c \<longleftrightarrow> c = CHR '' '' \<or> c = CHR 0x09 \<or> c = CHR 0x0A \<or> c = CHR 0x0B
     \<or> c = CHR 0x0C \<or> c = CHR 0x0D"

function tokens :: "string \<Rightarrow> string list" where
  "tokens s =
     (let s1 = dropWhile isspace s
      in if s1 = [] then []
         else takeWhile (\<lambda>c. \<not> isspace c) s1 # tokens (dropWhile (\<lambda>c. \<not> isspace c) s1))"
  by pat_completeness auto
termination
proof (relation "measure length")
  show "wf (measure length)" by simp
next
  fix s s1 :: string
  assume s1: "s1 = dropWhile isspace s" and ne: "s1 \<noteq> []"
  from ne obtain c cs where c: "s1 = c # cs" by (cases s1) simp_all
  from s1 ne have "\<not> isspace (hd s1)" using hd_dropWhile [of isspace s] by simp
  with c have "\<not> isspace c" by simp
  with c have "length (dropWhile (\<lambda>c. \<not> isspace c) s1) \<le> length cs"
    by (simp add: length_dropWhile_le)
  also have "length cs < length s1" using c by simp
  also have "length s1 \<le> length s" using s1 by (simp add: length_dropWhile_le)
  finally show "(dropWhile (\<lambda>c. \<not> isspace c) s1, s) \<in> measure length" by simp
qed

text \<open>
  \<open>term.rfind(p, 0) == 0\<close> tests whether \<open>term\<close> starts with \<open>p\<close>; \<open>term[0]\<close> of an empty
  string is the null character.
\<close>

definition starts_with :: "string \<Rightarrow> string \<Rightarrow> bool" where
  "starts_with p term \<longleftrightarrow> take (length p) term = p"

definition char0 :: "string \<Rightarrow> char" where
  "char0 term = (case term of [] \<Rightarrow> CHR 0x00 | c # cs \<Rightarrow> c)"

fun parse_loop :: "string list \<Rightarrow> string set \<Rightarrow> string set" where
  "parse_loop [] terms = terms"
| "parse_loop (t # ts) terms =
     (let term = map tolower t
      in if starts_with ''org:'' term \<or> starts_with ''person:'' term then
           parse_loop ts (Set.insert term terms)
         else if char0 term = CHR ''-'' then
           (let processedTerm = ''-'' @ processWord (drop 1 term)
            in if length processedTerm > 1 then parse_loop ts (Set.insert processedTerm terms)
               else parse_loop ts terms)
         else
           (let processedTerm = processWord term
            in if processedTerm \<noteq> [] then parse_loop ts (Set.insert processedTerm terms)
               else parse_loop ts terms))"

definition parse :: "string \<Rightarrow> string set" where
  "parse searchTerms = parse_loop (tokens searchTerms) {}"

text \<open>
  The parsing of the specification, to compare with: what one case-folded token
  contributes to the result.
\<close>

definition spec_term :: "string \<Rightarrow> string set" where
  "spec_term tok =
     (if starts_with ''org:'' tok \<or> starts_with ''person:'' tok then {tok}
      else if starts_with ''-'' tok then
        (if processWord (drop 1 tok) \<noteq> [] then {''-'' @ processWord (drop 1 tok)} else {})
      else (if processWord tok \<noteq> [] then {processWord tok} else {}))"

definition spec_parse :: "string \<Rightarrow> string set" where
  "spec_parse q = (\<Union>tok \<in> set (tokens q). spec_term (map tolower tok))"


section \<open>Proofs: the balanced index\<close>

subsection \<open>Balance\<close>

lemma avl_height_nonneg: "avl t \<Longrightarrow> 0 \<le> height t"
  by (induction t) auto

lemma avl_height_zero: "avl t \<Longrightarrow> height t \<le> 0 \<Longrightarrow> t = Null"
  using avl_height_nonneg by (cases t) fastforce+

lemma avl_real_height: "avl t \<Longrightarrow> height t = real_height t"
  by (induction t) auto

lemma avl_balanced: "avl t \<Longrightarrow> balanced t"
  by (induction t) (auto simp: avl_real_height)

text \<open>The result of \<open>rebalance\<close> in each of its five cases.\<close>

lemma rebalance_none:
  "height l - height r \<le> 1 \<Longrightarrow> height r - height l \<le> 1 \<Longrightarrow>
   rebalance k v l r key = Some (Node k v (1 + max (height l) (height r)) l r)"
  by (simp add: rebalance_def Let_def)

lemma rebalance_LL:
  "height (Node lk lv lh ll lr) - height r > 1 \<Longrightarrow> key < lk \<Longrightarrow>
   rebalance k v (Node lk lv lh ll lr) r key =
     Some (Node lk lv (max (height ll) (max (height lr) (height r) + 1) + 1) ll
            (Node k v (max (height lr) (height r) + 1) lr r))"
  by (simp add: rebalance_def Let_def)

lemma rebalance_LR:
  "height (Node lk lv lh ll (Node mk mv mh ml mr)) - height r > 1 \<Longrightarrow> lk < key \<Longrightarrow>
   rebalance k v (Node lk lv lh ll (Node mk mv mh ml mr)) r key =
     Some (Node mk mv (max (max (height ll) (height ml) + 1) (max (height mr) (height r) + 1) + 1)
            (Node lk lv (max (height ll) (height ml) + 1) ll ml)
            (Node k v (max (height mr) (height r) + 1) mr r))"
  by (simp add: rebalance_def Let_def)

lemma rebalance_RR:
  "height l - height (Node rk rv rh rl rr) < - 1 \<Longrightarrow> rk < key \<Longrightarrow>
   rebalance k v l (Node rk rv rh rl rr) key =
     Some (Node rk rv (max (max (height l) (height rl) + 1) (height rr) + 1)
            (Node k v (max (height l) (height rl) + 1) l rl) rr)"
  by (simp add: rebalance_def Let_def)

lemma rebalance_RL:
  "height l - height (Node rk rv rh (Node mk mv mh ml mr) rr) < - 1 \<Longrightarrow> key < rk \<Longrightarrow>
   rebalance k v l (Node rk rv rh (Node mk mv mh ml mr) rr) key =
     Some (Node mk mv (max (max (height l) (height ml) + 1) (max (height mr) (height rr) + 1) + 1)
            (Node k v (max (height l) (height ml) + 1) l ml)
            (Node rk rv (max (height mr) (height rr) + 1) mr rr))"
  by (simp add: rebalance_def Let_def)


lemma rebalance_left_rot:
  assumes "avl l'" "avl r" "height l' - height r = 2" "grew key l'"
  shows "\<exists>t'. rebalance k v l' r key = Some t' \<and> avl t' \<and> height t' = height l'"
proof (cases l')
  case Null
  with assms show ?thesis by simp
next
  case (Node lk lv lh ll lr)
  from assms(4) Node consider
    (LL) "key < lk" "height ll = height lr + 1" | (LR) "lk < key" "height lr = height ll + 1"
    by auto
  then show ?thesis
  proof cases
    case LL
    with assms Node show ?thesis by (simp add: rebalance_LL)
  next
    case LR
    from assms(1) Node have "0 \<le> height ll" by (simp add: avl_height_nonneg)
    with LR obtain mk mv mh ml mr where lr: "lr = Node mk mv mh ml mr"
      by (cases lr) auto
    with LR assms Node show ?thesis by (simp add: rebalance_LR) arith
  qed
qed

lemma rebalance_right_rot:
  assumes "avl l" "avl r'" "height r' - height l = 2" "grew key r'"
  shows "\<exists>t'. rebalance k v l r' key = Some t' \<and> avl t' \<and> height t' = height r'"
proof (cases r')
  case Null
  with assms show ?thesis by simp
next
  case (Node rk rv rh rl rr)
  from assms(4) Node consider
    (RL) "key < rk" "height rl = height rr + 1" | (RR) "rk < key" "height rr = height rl + 1"
    by auto
  then show ?thesis
  proof cases
    case RR
    with assms Node show ?thesis by (simp add: rebalance_RR)
  next
    case RL
    from assms(2) Node have "0 \<le> height rr" by (simp add: avl_height_nonneg)
    with RL obtain mk mv mh ml mr where "rl = Node mk mv mh ml mr"
      by (cases rl) auto
    with RL assms Node show ?thesis by (simp add: rebalance_RL) arith
  qed
qed

lemma insert_node_avl:
  "avl t \<Longrightarrow> \<exists>t'. insert_node t key val = Some t' \<and> avl t' \<and>
     (height t' = height t \<or> (height t' = height t + 1 \<and> (t = Null \<or> grew key t')))"
proof (induction t)
  case Null
  show ?case by simp
next
  case (Node k v h l r)
  from Node.prems have al: "avl l" and ar: "avl r" and h: "h = 1 + max (height l) (height r)"
    and b: "height l - height r \<le> 1" "height r - height l \<le> 1" by simp_all
  consider (lt) "key < k" | (gt) "k < key" | (eq) "key = k" by fastforce
  then show ?case
  proof cases
    case eq
    with Node.prems show ?thesis by simp
  next
    case lt
    from Node.IH(1) [OF al] obtain l' where l': "insert_node l key val = Some l'" "avl l'"
      and hl: "height l' = height l \<or> (height l' = height l + 1 \<and> (l = Null \<or> grew key l'))"
      by blast
    show ?thesis
    proof (cases "height l' - height r = 2")
      case True
      with hl b have g: "height l' = height l + 1" "height l = height r + 1" by auto
      with avl_height_nonneg [OF ar] avl_height_zero [OF al] have "l \<noteq> Null" by auto
      with hl g have "grew key l'" by auto
      from rebalance_left_rot [OF l'(2) ar True this, of k v]
      obtain t' where "rebalance k v l' r key = Some t'" "avl t'" "height t' = height l'"
        by blast
      with lt l' g h show ?thesis by simp
    next
      case False
      with hl b have "height l' - height r \<le> 1" "height r - height l' \<le> 1" by auto
      from rebalance_none [OF this, of k v key] lt l' hl al ar b h this
      show ?thesis by auto
    qed
  next
    case gt
    then have ngt: "\<not> key < k" by simp
    from Node.IH(2) [OF ar] obtain r' where r': "insert_node r key val = Some r'" "avl r'"
      and hr: "height r' = height r \<or> (height r' = height r + 1 \<and> (r = Null \<or> grew key r'))"
      by blast
    show ?thesis
    proof (cases "height r' - height l = 2")
      case True
      with hr b have g: "height r' = height r + 1" "height r = height l + 1" by auto
      with avl_height_nonneg [OF al] avl_height_zero [OF ar] have "r \<noteq> Null" by auto
      with hr g have "grew key r'" by auto
      from rebalance_right_rot [OF al r'(2) True this, of k v]
      obtain t' where "rebalance k v l r' key = Some t'" "avl t'" "height t' = height r'"
        by blast
      with gt ngt r' g h show ?thesis by simp
    next
      case False
      with hr b have "height l - height r' \<le> 1" "height r' - height l \<le> 1" by auto
      from rebalance_none [OF this, of k v key] gt ngt r' hr al ar b h this
      show ?thesis by auto
    qed
  qed
qed

subsection \<open>Order and lookup\<close>

lemma find_value_Null [simp]: "find_value Null x = None"
  by (simp add: find_value_def)

lemma find_value_Node [simp]:
  "find_value (Node k v h l r) x =
     (if k = x then Some v else if x < k then find_value l x else find_value r x)"
  by (simp add: find_value_def)

lemma rr_keys: "rightRotate t = Some t' \<Longrightarrow> keys_of t' = keys_of t"
  by (cases t rule: rightRotate.cases) (auto simp: Let_def)

lemma rr_bst: "rightRotate t = Some t' \<Longrightarrow> bst t \<Longrightarrow> bst t'"
  by (cases t rule: rightRotate.cases) (force simp: Let_def)+

lemma rr_find: "rightRotate t = Some t' \<Longrightarrow> bst t \<Longrightarrow> find_value t' x = find_value t x"
  apply (cases t rule: rightRotate.cases)
  apply (simp_all add: Let_def)
  apply (elim conjE)
  apply (erule subst)
  apply (simp)
  apply (intro impI conjI)
  apply (auto dest: less_trans)
  done


lemma lr_keys: "leftRotate t = Some t' \<Longrightarrow> keys_of t' = keys_of t"
  by (cases t rule: leftRotate.cases) (auto simp: Let_def)

lemma lr_bst: "leftRotate t = Some t' \<Longrightarrow> bst t \<Longrightarrow> bst t'"
  by (cases t rule: leftRotate.cases) (force simp: Let_def)+

lemma lr_find: "leftRotate t = Some t' \<Longrightarrow> bst t \<Longrightarrow> find_value t' x = find_value t x"
  apply (cases t rule: leftRotate.cases)
  apply (simp_all add: Let_def)
  apply (elim conjE)
  apply (erule subst)
  apply (simp)
  apply (intro impI conjI)
  apply (auto dest: less_trans)
  done

lemma same_content_refl: "same_content t t"
  by (simp add: same_content_def)

lemma same_content_trans: "same_content t t' \<Longrightarrow> same_content t' t'' \<Longrightarrow> same_content t t''"
  by (simp add: same_content_def)

lemma rr_ok: "rightRotate t = Some t' \<Longrightarrow> bst t \<Longrightarrow> bst t' \<and> same_content t t'"
  by (simp add: rr_keys rr_bst rr_find same_content_def)

lemma lr_ok: "leftRotate t = Some t' \<Longrightarrow> bst t \<Longrightarrow> bst t' \<and> same_content t t'"
  by (simp add: lr_keys lr_bst lr_find same_content_def)

lemma bst_left_cong:
  "bst (Node k v h l r) \<Longrightarrow> bst l' \<Longrightarrow> same_content l l' \<Longrightarrow>
   bst (Node k v h' l' r) \<and> same_content (Node k v h l r) (Node k v h' l' r)"
  by (simp add: same_content_def)

lemma bst_right_cong:
  "bst (Node k v h l r) \<Longrightarrow> bst r' \<Longrightarrow> same_content r r' \<Longrightarrow>
   bst (Node k v h' l r') \<and> same_content (Node k v h l r) (Node k v h' l r')"
  by (simp add: same_content_def)

lemma rebalance_shape:
  assumes "rebalance k v l r key = Some t'"
  shows "t' = Node k v (1 + max (height l) (height r)) l r
    \<or> rightRotate (Node k v (1 + max (height l) (height r)) l r) = Some t'
    \<or> leftRotate (Node k v (1 + max (height l) (height r)) l r) = Some t'
    \<or> (\<exists>l'. leftRotate l = Some l' \<and> rightRotate (Node k v (1 + max (height l) (height r)) l' r) = Some t')
    \<or> (\<exists>r'. rightRotate r = Some r' \<and> leftRotate (Node k v (1 + max (height l) (height r)) l r') = Some t')"
proof (cases "getBalance (Node k v (1 + max (height l) (height r)) l r) > 1")
  case True
  with assms show ?thesis 
    unfolding rebalance_def Let_def
    by (cases l; cases "leftRotate l") (simp_all split: if_splits)
next
  case False
  note nb = this
  show ?thesis
  proof (cases "getBalance (Node k v (1 + max (height l) (height r)) l r) < - 1")
    case True
    with assms nb show ?thesis
    unfolding rebalance_def Let_def
    by (cases r; cases "rightRotate r") (simp_all split: if_splits)
  next
    case False
    with assms nb show ?thesis
    unfolding rebalance_def Let_def by simp
  qed
qed

lemma rebalance_bst:
  assumes "rebalance k v l r key = Some t'" and b: "bst (Node k v h l r)"
  shows "bst t' \<and> same_content (Node k v h l r) t'"
proof -
  let ?h = "1 + max (height l) (height r)"
  let ?node = "Node k v ?h l r"
  have n: "bst ?node \<and> same_content (Node k v h l r) ?node"
    using b by (simp add: same_content_def)
  consider (none) "t' = ?node" | (single) "rightRotate ?node = Some t' \<or> leftRotate ?node = Some t'"
    | (LR) l' where "leftRotate l = Some l'" "rightRotate (Node k v ?h l' r) = Some t'"
    | (RL) r' where "rightRotate r = Some r'" "leftRotate (Node k v ?h l r') = Some t'"
    using rebalance_shape [OF assms(1)] by blast
  then show ?thesis
  proof cases
    case none
    with n show ?thesis by simp
  next
    case single
    with n rr_ok [of ?node t'] lr_ok [of ?node t'] show ?thesis
      by (blast intro: same_content_trans)
  next
    case LR
    from b have "bst l" by simp
    with LR(1) have "bst l' \<and> same_content l l'" by (rule lr_ok)
    with b have m: "bst (Node k v ?h l' r) \<and> same_content (Node k v h l r) (Node k v ?h l' r)"
      using bst_left_cong [of k v h l r l' ?h] by blast
    with LR(2) rr_ok [of "Node k v ?h l' r" t'] show ?thesis
      by (blast intro: same_content_trans)
  next
    case RL
    from b have "bst r" by simp
    with RL(1) have "bst r' \<and> same_content r r'" by (rule rr_ok)
    with b have m: "bst (Node k v ?h l r') \<and> same_content (Node k v h l r) (Node k v ?h l r')"
      using bst_right_cong [of k v h l r r' ?h] by blast
    with RL(2) lr_ok [of "Node k v ?h l r'" t'] show ?thesis
      by (blast intro: same_content_trans)
  qed
qed

lemma insert_node_bst:
  "bst t \<Longrightarrow> insert_node t key val = Some t' \<Longrightarrow>
   bst t' \<and> keys_of t' = Set.insert key (keys_of t) \<and>
   (\<forall>x. find_value t' x = (if x = key then Some val else find_value t x))"
proof (induction t arbitrary: t')
  case Null
  then show ?case by auto
next
  case (Node k v h l r)
  consider (lt) "key < k" | (gt) "k < key" | (eq) "key = k" by fastforce
  then show ?case
  proof cases
    case eq
    with Node.prems show ?thesis by auto
  next
    case lt
    with Node.prems(2) obtain l' where l': "insert_node l key val = Some l'"
      and t': "rebalance k v l' r key = Some t'"
      by (auto split: option.splits)
    from Node.prems(1) have "bst l" by simp
    from Node.IH(1) [OF this l'] have il: "bst l'" "keys_of l' = Set.insert key (keys_of l)"
      "\<And>x. find_value l' x = (if x = key then Some val else find_value l x)" by simp_all
    with Node.prems(1) lt have "bst (Node k v h l' r)" by simp
    from rebalance_bst [OF t' this] have "bst t'" "keys_of t' = keys_of (Node k v h l' r)"
      "\<And>x. find_value t' x = find_value (Node k v h l' r) x"
      by (simp_all add: same_content_def)
    moreover from lt have "key \<noteq> k" "k \<noteq> key" by simp_all
    ultimately show ?thesis using il lt by (simp add: insert_commute)
  next
    case gt
    then have ngt: "\<not> key < k" by simp
    with gt Node.prems(2) obtain r' where r': "insert_node r key val = Some r'"
      and t': "rebalance k v l r' key = Some t'"
      by (auto split: option.splits)
    from Node.prems(1) have "bst r" by simp
    from Node.IH(2) [OF this r'] have ir: "bst r'" "keys_of r' = Set.insert key (keys_of r)"
      "\<And>x. find_value r' x = (if x = key then Some val else find_value r x)" by simp_all
    with Node.prems(1) gt have "bst (Node k v h l r')" by simp
    from rebalance_bst [OF t' this] have "bst t'" "keys_of t' = keys_of (Node k v h l r')"
      "\<And>x. find_value t' x = find_value (Node k v h l r') x"
      by (simp_all add: same_content_def)
    moreover from gt have "key \<noteq> k" "k \<noteq> key" by simp_all
    ultimately show ?thesis using ir gt ngt by (simp add: insert_commute)
  qed
qed

subsection \<open>Sequences of insertions\<close>

lemma insert_all_inv:
  "avl t \<Longrightarrow> bst t \<Longrightarrow>
   \<exists>t'. insert_all t kvs = Some t' \<and> avl t' \<and> bst t' \<and>
        find_value t' = find_value t ++ map_of (rev kvs)"
proof (induction kvs arbitrary: t)
  case Nil
  then show ?case by simp
next
  case (Cons kv kvs)
  obtain key val where kv: "kv = (key, val)" by (cases kv)
  from insert_node_avl [OF Cons.prems(1), of key val]
  obtain t1 where t1: "insert_node t key val = Some t1" "avl t1" by blast
  from insert_node_bst [OF Cons.prems(2) t1(1)]
  have b1: "bst t1" and f1: "find_value t1 = (find_value t)(key \<mapsto> val)" by auto
  from Cons.IH [OF t1(2) b1] obtain t' where t': "insert_all t1 kvs = Some t'" "avl t'" "bst t'"
    "find_value t' = find_value t1 ++ map_of (rev kvs)" by blast
  have "find_value t1 ++ map_of (rev kvs) = find_value t ++ map_of (rev (kv # kvs))"
    by (simp add: f1 kv)
  with t' t1 kv show ?case by simp
qed

lemma find_node_key: "find_node t x = Node k v h l r \<Longrightarrow> k = x"
  by (induction t) (auto split: if_splits)

lemma find_value_Some: "find_value t x = Some v \<longleftrightarrow> (\<exists>h l r. find_node t x = Node x v h l r)"
  using find_node_key [of t x] by (cases "find_node t x") (auto simp: find_value_def)

lemma find_value_None: "find_value t x = None \<longleftrightarrow> find_node t x = Null"
  by (cases "find_node t x") (auto simp: find_value_def)

text \<open>
  Claim C3 (balance invariant). Any sequence of calls of \<open>insert\<close> on an initially
  empty index runs to its end, and in the tree it leaves every node has subtrees whose
  heights differ by at most one, and stores the height of its own subtree.
\<close>

theorem insert_all_balanced:
  "\<exists>t. insert_all Null kvs = Some t \<and> balanced t"
  using insert_all_inv [of Null kvs] by (auto intro: avl_balanced)

text \<open>
  Claim C4 (lookup correctness). After any sequence of calls of \<open>insert\<close> on an
  initially empty index, \<open>find\<close> on a key that was inserted returns a node with that
  key and the value of the last insertion for it, and \<open>find\<close> on a key that was never
  inserted returns the null pointer: no node, which is not a node with an empty value.
\<close>

theorem find_after_insert_all:
  "\<exists>t. insert_all Null kvs = Some t \<and>
     (\<forall>key val. map_of (rev kvs) key = Some val \<longrightarrow> (\<exists>h l r. find_node t key = Node key val h l r)) \<and>
     (\<forall>key. key \<notin> fst ` set kvs \<longrightarrow> find_node t key = Null)"
proof -
  from insert_all_inv [of Null kvs] obtain t where t: "insert_all Null kvs = Some t"
    and f: "find_value t = find_value Null ++ map_of (rev kvs)" by auto
  have e: "find_value Null = (Map.empty :: string \<Rightarrow> 'a option)" by (rule ext) simp
  from f have f': "\<And>key. find_value t key = map_of (rev kvs) key" by (simp add: e)
  have "\<And>key. key \<notin> fst ` set kvs \<Longrightarrow> map_of (rev kvs) key = None"
    by (simp add: map_of_eq_None_iff)
  with f' have "\<And>key. key \<notin> fst ` set kvs \<Longrightarrow> find_node t key = Null"
    by (simp add: find_value_None [symmetric])
  moreover from f' have "\<And>key val. map_of (rev kvs) key = Some val \<Longrightarrow>
      \<exists>h l r. find_node t key = Node key val h l r"
    by (simp add: find_value_Some [symmetric])
  ultimately show ?thesis using t by blast
qed

theorem find_after_insert_all_witness:
  "\<exists>t. insert_all Null [(''b'', [1::nat]), (''a'', []), (''b'', [2])] = Some t \<and>
     (\<exists>h l r. find_node t ''b'' = Node ''b'' [2] h l r) \<and>
     (\<exists>h l r. find_node t ''a'' = Node ''a'' [] h l r) \<and>
     find_node t ''c'' = Null"
proof -
  let ?kvs = "[(''b'', [1::nat]), (''a'', []), (''b'', [2])]"
  have 1: "map_of (rev ?kvs) ''b'' = Some [2]" by simp
  have 2: "map_of (rev ?kvs) ''a'' = Some []" by simp
  have 3: "''c'' \<notin> fst ` set ?kvs" by simp
  from find_after_insert_all [of ?kvs] 1 2 3 show ?thesis by blast
qed

section \<open>Proofs: persistence\<close>

lemma AVLTree_load_Null: "AVLTree_load max_alloc Null ins = Returns Null"
  by (simp add: AVLTree_load_def)

text \<open>
  Claim C1 (persistence round trip): the code at a failing input. Whatever index is
  saved to a file, loading the file into a fresh index leaves that index empty. The
  index that holds the one entry \<open>a\<close>, with the posting map \<open>doc \<mapsto> 1\<close>, finds \<open>a\<close>; after
  saving it and loading the file into a fresh index, that index does not.
\<close>

theorem save_load_fresh_loses_entries:
  "loadFromFile max_alloc (saveToFile fs filename root) filename Null = Returns Null
   \<and> insert_all Null [(''a'', [(''doc'', 1)])] = Some (Node ''a'' [(''doc'', 1)] 1 Null Null)
   \<and> find_value (Node ''a'' [(''doc'', 1 :: 32 word)] 1 Null Null) ''a'' = Some [(''doc'', 1)]
   \<and> loadFromFile max_alloc
        (saveToFile Map.empty ''word.dat'' (Node ''a'' [(''doc'', 1)] 1 Null Null))
        ''word.dat'' Null = Returns Null
   \<and> find_value (Null :: posting_map AVLTree) ''a'' = None"
  by (simp add: loadFromFile_def AVLTree_load_Null)

text \<open>
  Claim C9 (load never creates nodes). \<open>loadFromFile\<close> on an empty tree returns the
  empty tree, whatever the file system holds. On any tree, when it returns or throws,
  the tree it leaves has the key, the height and both subtrees of the root unchanged:
  at most the posting map of the root differs, and the key set is the same.
\<close>

theorem loadFromFile_frame:
  "loadFromFile max_alloc fs filename Null = Returns Null \<and>
   (\<forall>t'. loadFromFile max_alloc fs filename root = Returns t'
          \<or> loadFromFile max_alloc fs filename root = Throws t'
        \<longrightarrow> same_but_root_value root t' \<and> keys_of t' = keys_of root)"
  by (cases root)
     (auto simp: loadFromFile_def AVLTree_load_def split: outcome.splits)

theorem loadFromFile_frame_witness:
  "loadFromFile 100 [''f'' \<mapsto> posting_map_bytes [(''x'', 7)]] ''f''
     (Node ''b'' [(''d'', 1)] 2 (Node ''a'' [(''e'', 2)] 1 Null Null) Null)
     = Returns (Node ''b'' [(''x'', 7)] 2 (Node ''a'' [(''e'', 2)] 1 Null Null) Null)
   \<and> same_but_root_value (Node ''b'' [(''d'', 1 :: 32 word)] 2 (Node ''a'' [(''e'', 2)] 1 Null Null) Null)
        (Node ''b'' [(''x'', 7)] 2 (Node ''a'' [(''e'', 2)] 1 Null Null) Null)
   \<and> keys_of (Node ''b'' [(''x'', 7 :: 32 word)] 2 (Node ''a'' [(''e'', 2)] 1 Null Null) Null)
       = keys_of (Node ''b'' [(''d'', 1 :: 32 word)] 2 (Node ''a'' [(''e'', 2)] 1 Null Null) Null)"
proof -
  have e: "loadFromFile 100 [''f'' \<mapsto> posting_map_bytes [(''x'', 7)]] ''f''
      (Node ''b'' [(''d'', 1)] 2 (Node ''a'' [(''e'', 2)] 1 Null Null) Null)
    = Returns (Node ''b'' [(''x'', 7)] 2 (Node ''a'' [(''e'', 2)] 1 Null Null) Null)"
    by code_simp
  from loadFromFile_frame [of 100 "[''f'' \<mapsto> posting_map_bytes [(''x'', 7)]]" "''f''"
      "Node ''b'' [(''d'', 1)] 2 (Node ''a'' [(''e'', 2)] 1 Null Null) Null"] e
  show ?thesis by blast
qed

lemma saveMap_loop_eq: "saveMap_loop m out = out @ concat (map posting_bytes m)"
  by (induction m out rule: saveMap_loop.induct) (simp_all add: posting_bytes_def Let_def)

lemma length_le_bytes: "length (le_bytes n x) = n"
  by (induction n x rule: le_bytes.induct) simp_all

text \<open>
  Claim C5 (binary format), as amended. The bytes that \<open>saveMap\<close> appends to the
  stream for a posting map are the number of postings in 8 bytes, then for each
  posting, in iteration order, the length of the document id in 8 bytes, the bytes of
  the document id, and the count in 4 bytes.
\<close>

theorem saveMap_format:
  "saveMap m out =
     out @ le_bytes 8 (length m)
       @ concat (map (\<lambda>(d, c). le_bytes 8 (length d) @ d @ le_bytes 4 (unat c)) m)
   \<and> length (le_bytes 8 x) = 8 \<and> length (le_bytes 4 y) = 4"
proof -
  have "posting_bytes = (\<lambda>(d, c). le_bytes 8 (length d) @ d @ le_bytes 4 (unat c))"
    by (rule ext) (simp add: posting_bytes_def split: prod.splits)
  then show ?thesis
    by (simp add: saveMap_def saveMap_loop_eq length_le_bytes)
qed

text \<open>
  The claim as stated fails for the index with the one entry \<open>a\<close> and the posting
  \<open>d \<mapsto> 1\<close>: \<open>save\<close> writes 21 bytes, which hold neither the key nor an 8-byte count.
\<close>

theorem save_format_counterexample:
  "AVLTree_save (Node ''a'' [(''d'', 1)] 1 Null Null) [] \<noteq> spec_format [(''a'', [(''d'', 1)])]"
  by code_simp

section \<open>Proofs: the index manager\<close>

text \<open>
  Claim C10 (secondary word lookup). For every index state and every word,
  \<open>getOtherFilesByWord\<close> returns the posting map that \<open>getFilesByWord\<close> returns.
\<close>

theorem getOtherFilesByWord_eq:
  "getOtherFilesByWord wm word = getFilesByWord wm word"
  by (simp add: getOtherFilesByWord_def)

section \<open>Proofs: the text normalizer\<close>

lemma tolower_idem: "tolower (tolower c) = tolower c"
  by (auto simp: tolower_def less_eq_char_def)

lemma endsWith_iff: "endsWith str suffix \<longleftrightarrow> (\<exists>p. str = p @ suffix)"
proof
  assume "endsWith str suffix"
  then have "drop (length str - length suffix) str = suffix"
    by (simp add: endsWith_def split: if_splits)
  then have "str = take (length str - length suffix) str @ suffix"
    by (metis append_take_drop_id)
  then show "\<exists>p. str = p @ suffix" ..
next
  assume "\<exists>p. str = p @ suffix"
  then show "endsWith str suffix" by (auto simp: endsWith_def)
qed

lemma endsWith_append: "endsWith str (a @ b) \<Longrightarrow> endsWith str b"
  by (auto simp: endsWith_iff)

lemma step1a_noop: "\<not> endsWith str ''s'' \<Longrightarrow> step1a str = str"
  using endsWith_append [of str "''sse''" "''s''"] endsWith_append [of str "''ie''" "''s''"]
    endsWith_append [of str "''s''" "''s''"]
  by (auto simp: step1a_def)

lemma step1b_noop: "\<not> endsWith str ''ed'' \<Longrightarrow> \<not> endsWith str ''ing'' \<Longrightarrow> step1b str = str"
  using endsWith_append [of str "''e''" "''ed''"]
  by (auto simp: step1b_def)

lemma step1c_noop: "\<not> endsWith str ''y'' \<Longrightarrow> step1c str = str"
  by (simp add: step1c_def)

lemma tolower_lit [simp]:
  "tolower CHR ''s'' = CHR ''s''" "tolower CHR ''i'' = CHR ''i''" "tolower CHR ''e'' = CHR ''e''"
  by (simp_all add: tolower_def)

lemma lower_iff: "map tolower str = str \<longleftrightarrow> (\<forall>c \<in> set str. tolower c = c)"
  by (induction str) auto

lemma replaceSuffix_set: "set (replaceSuffix str suffix r) \<subseteq> set str \<union> set r"
  by (auto simp: replaceSuffix_def dest: in_set_takeD)

lemma step1a_set: "set (step1a str) \<subseteq> set str \<union> {CHR ''s'', CHR ''i''}"
  using replaceSuffix_set [of str "''sses''" "''ss''"] replaceSuffix_set [of str "''ies''" "''i''"]
  by (auto simp: step1a_def dest: in_set_butlastD)

lemma step1b_set: "set (step1b str) \<subseteq> set str \<union> {CHR ''e''}"
proof -
  let ?s1 = "if endsWith str ''ed'' then replaceSuffix str ''ed'' [] else replaceSuffix str ''ing'' []"
  have 1: "set ?s1 \<subseteq> set str"
    using replaceSuffix_set [of str "''ed''" "[]"] replaceSuffix_set [of str "''ing''" "[]"]
    by auto
  then have 2: "set (butlast ?s1) \<subseteq> set str" by (blast dest: in_set_butlastD)
  have 3: "set (replaceSuffix str ''eed'' ''ee'') \<subseteq> set str \<union> {CHR ''e''}"
    using replaceSuffix_set [of str "''eed''" "''ee''"] by auto
  have "step1b str = str \<or> step1b str = replaceSuffix str ''eed'' ''ee'' \<or> step1b str = ?s1
      \<or> step1b str = ?s1 @ ''e'' \<or> step1b str = butlast ?s1"
    unfolding step1b_def Let_def by presburger
  with 1 2 3 show ?thesis by (elim disjE) auto
qed

lemma step1c_set: "set (step1c str) \<subseteq> set str \<union> {CHR ''i''}"
  using set_update_subset_insert [of str "length str - 1" "CHR ''i''"]
  by (auto simp: step1c_def)

lemma stem_lower: "2 < length word \<Longrightarrow> map tolower (stem word) = stem word"
proof -
  assume "2 < length word"
  then have s: "stem word = step1c (step1b (step1a (map tolower word)))" by (simp add: stem_def)
  have "set (stem word) \<subseteq> set (map tolower word) \<union> {CHR ''s'', CHR ''i'', CHR ''e''}"
    unfolding s using step1c_set step1b_set step1a_set by blast
  then show ?thesis unfolding lower_iff by (auto simp: tolower_idem)
qed

text \<open>
  Claim C7 (stemmer idempotence), as amended. Stemming the stem of a word gives the
  stem again whenever the stem does not end in \<open>s\<close>, \<open>ed\<close>, \<open>ing\<close> or \<open>y\<close>; the stem of
  \<open>running\<close> is \<open>run\<close>, and the stem of \<open>run\<close> is \<open>run\<close>.
\<close>

theorem stem_idempotent_cases:
  "(\<not> endsWith (stem w) ''s'' \<and> \<not> endsWith (stem w) ''ed'' \<and> \<not> endsWith (stem w) ''ing''
      \<and> \<not> endsWith (stem w) ''y'' \<longrightarrow> stem (stem w) = stem w)
   \<and> stem ''running'' = ''run'' \<and> stem ''run'' = ''run''"
proof -
  have "stem (stem w) = stem w"
    if h: "\<not> endsWith (stem w) ''s''" "\<not> endsWith (stem w) ''ed''" "\<not> endsWith (stem w) ''ing''"
      "\<not> endsWith (stem w) ''y''"
  proof (cases "length (stem w) \<le> 2")
    case True
    then show ?thesis by (simp add: stem_def [of "stem w"])
  next
    case False
    then have "2 < length w" by (auto simp: stem_def split: if_splits)
    then have "map tolower (stem w) = stem w" by (rule stem_lower)
    with False h show ?thesis
      by (simp add: stem_def [of "stem w"] step1a_noop step1b_noop step1c_noop)
  qed
  moreover have "stem ''running'' = ''run''" by code_simp
  moreover have "stem ''run'' = ''run''" by code_simp
  ultimately show ?thesis by blast
qed

theorem stem_idempotent_cases_witness:
  "\<not> endsWith (stem ''running'') ''s'' \<and> \<not> endsWith (stem ''running'') ''ed''
   \<and> \<not> endsWith (stem ''running'') ''ing'' \<and> \<not> endsWith (stem ''running'') ''y''
   \<and> stem (stem ''running'') = stem ''running''"
proof -
  have "\<not> endsWith (stem ''running'') ''s''" "\<not> endsWith (stem ''running'') ''ed''"
    "\<not> endsWith (stem ''running'') ''ing''" "\<not> endsWith (stem ''running'') ''y''"
    by code_simp+
  with stem_idempotent_cases [of "''running''"] show ?thesis by blast
qed

text \<open>
  The claim as stated fails: the stem of \<open>exceeded\<close> is \<open>exceed\<close>, whose stem is
  \<open>excee\<close>.
\<close>

theorem stem_idempotent_counterexample:
  "stem (stem ''exceeded'') \<noteq> stem ''exceeded''"
  by code_simp

section \<open>Proofs: query parsing\<close>

declare tokens.simps [simp del]

lemma char0_dash: "char0 term = CHR ''-'' \<longleftrightarrow> starts_with ''-'' term"
  by (cases "term") (auto simp: char0_def starts_with_def)

lemma parse_step:
  "parse_loop (t # ts) terms = parse_loop ts (terms \<union> spec_term (map tolower t))"
  by (simp add: Let_def spec_term_def char0_dash)

lemma parse_loop_eq:
  "parse_loop ts terms = terms \<union> (\<Union>t \<in> set ts. spec_term (map tolower t))"
proof (induction ts arbitrary: terms)
  case Nil
  show ?case by simp
next
  case (Cons t ts)
  show ?case unfolding parse_step Cons.IH by auto
qed

lemma tokens_empty: "dropWhile isspace s = [] \<Longrightarrow> tokens s = []"
  by (subst tokens.simps) simp

lemma tokens_step:
  "dropWhile isspace s \<noteq> [] \<Longrightarrow>
   tokens s = takeWhile (\<lambda>c. \<not> isspace c) (dropWhile isspace s)
              # tokens (dropWhile (\<lambda>c. \<not> isspace c) (dropWhile isspace s))"
  by (subst tokens.simps) (simp add: Let_def)

lemma tokens_nonempty_nospace:
  "t \<in> set (tokens s) \<Longrightarrow> t \<noteq> [] \<and> (\<forall>c \<in> set t. \<not> isspace c)"
proof (induction s rule: tokens.induct)
  case (1 s)
  let ?s1 = "dropWhile isspace s"
  show ?case
  proof (cases "?s1 = []")
    case True
    with "1.prems" show ?thesis by (simp add: tokens_empty)
  next
    case False
    then have "\<not> isspace (hd ?s1)" by (rule hd_dropWhile)
    with False have ne: "takeWhile (\<lambda>c. \<not> isspace c) ?s1 \<noteq> []"
      by (cases ?s1) auto
    from "1.prems" False consider "t = takeWhile (\<lambda>c. \<not> isspace c) ?s1"
      | "t \<in> set (tokens (dropWhile (\<lambda>c. \<not> isspace c) ?s1))"
      by (auto simp: tokens_step)
    then show ?thesis
    proof cases
      case 1
      with ne show ?thesis by (auto dest: set_takeWhileD)
    next
      case 2
      with "1.IH" [OF refl False] show ?thesis by blast
    qed
  qed
qed

lemma filter_not_dropWhile: "filter (\<lambda>c. \<not> P c) (dropWhile P xs) = filter (\<lambda>c. \<not> P c) xs"
  by (induction xs) simp_all

lemma filter_takeWhile_dropWhile: "filter Q xs = takeWhile Q xs @ filter Q (dropWhile Q xs)"
  by (induction xs) simp_all

lemma tokens_concat: "concat (tokens s) = filter (\<lambda>c. \<not> isspace c) s"
proof (induction s rule: tokens.induct)
  case (1 s)
  let ?s1 = "dropWhile isspace s"
  let ?t = "takeWhile (\<lambda>c. \<not> isspace c) ?s1"
  let ?r = "dropWhile (\<lambda>c. \<not> isspace c) ?s1"
  have s: "filter (\<lambda>c. \<not> isspace c) s = filter (\<lambda>c. \<not> isspace c) ?s1"
    by (simp add: filter_not_dropWhile)
  show ?case
  proof (cases "?s1 = []")
    case True
    with s show ?thesis by (simp add: tokens_empty)
  next
    case False
    have "filter (\<lambda>c. \<not> isspace c) ?s1 = ?t @ filter (\<lambda>c. \<not> isspace c) ?r"
      by (rule filter_takeWhile_dropWhile)
    with s "1.IH" [OF refl False] False show ?thesis by (simp add: tokens_step)
  qed
qed

lemma tokens_space: "\<forall>c \<in> set w. isspace c \<Longrightarrow> tokens w = []"
  by (rule tokens_empty) simp

lemma tokens_split:
  assumes w: "\<forall>c \<in> set w. isspace c" and t: "t \<noteq> []" "\<forall>c \<in> set t. \<not> isspace c"
    and r: "rest = [] \<or> isspace (hd rest)"
  shows "tokens (w @ t @ rest) = t # tokens rest"
proof -
  from t obtain c cs where c: "t = c # cs" "\<not> isspace c" by (cases t) auto
  from w have "dropWhile isspace (w @ t @ rest) = dropWhile isspace (t @ rest)"
    by (simp add: dropWhile_append2)
  with c have d: "dropWhile isspace (w @ t @ rest) = t @ rest" by simp
  from r have r1: "takeWhile (\<lambda>c. \<not> isspace c) rest = []" by (cases rest) auto
  from r have r2: "dropWhile (\<lambda>c. \<not> isspace c) rest = rest" by (cases rest) auto
  from t(2) r1 have t1: "takeWhile (\<lambda>c. \<not> isspace c) (t @ rest) = t"
    by (simp add: takeWhile_append2)
  from t(2) r2 have t2: "dropWhile (\<lambda>c. \<not> isspace c) (t @ rest) = rest"
    by (simp add: dropWhile_append2)
  from c have "t @ rest \<noteq> []" by simp
  then show ?thesis using tokens_step [of "w @ t @ rest"] unfolding d t1 t2 by simp
qed

text \<open>
  Claim C6 (query parsing). \<open>parse\<close> returns the set that the specification describes:
  the union, over the tokens of the query, of what the case-folded token contributes
  (itself for an \<open>org:\<close> or \<open>person:\<close> token; \<open>-\<close> followed by \<open>processWord\<close> of the rest
  for a token starting with \<open>-\<close>, if that is not empty; \<open>processWord\<close> of the token
  otherwise, if that is not empty). The result depends only on the set of case-folded
  tokens, so that a repeated word changes nothing. The tokens are the maximal runs
  without white space: after leading white space, a non-empty run without white space
  that ends the string or is followed by white space is the first token, and a
  string of white space has no token.
\<close>

theorem parse_refines_spec:
  "parse q = spec_parse q
   \<and> (\<forall>q'. set (map (map tolower) (tokens q')) = set (map (map tolower) (tokens q))
        \<longrightarrow> parse q' = parse q)
   \<and> (\<forall>w t rest. (\<forall>c \<in> set w. isspace c) \<and> t \<noteq> [] \<and> (\<forall>c \<in> set t. \<not> isspace c)
          \<and> (rest = [] \<or> isspace (hd rest)) \<longrightarrow> tokens (w @ t @ rest) = t # tokens rest)
   \<and> (\<forall>w. (\<forall>c \<in> set w. isspace c) \<longrightarrow> tokens w = [])"
proof -
  have p: "\<And>q. parse q = (\<Union>t \<in> set (map (map tolower) (tokens q)). spec_term t)"
    by (simp add: parse_def parse_loop_eq)
  then have "parse q = spec_parse q" by (simp add: spec_parse_def)
  moreover have "\<forall>q'. set (map (map tolower) (tokens q')) = set (map (map tolower) (tokens q))
        \<longrightarrow> parse q' = parse q"
    unfolding p by simp
  ultimately show ?thesis using tokens_split tokens_space by blast
qed

theorem parse_refines_spec_witness:
  "set (map (map tolower) (tokens ''RUNNING  Run -about run''))
     = set (map (map tolower) (tokens ''run -About running''))
   \<and> parse ''RUNNING  Run -about run'' = parse ''run -About running''
   \<and> parse ''run -About running'' = {''run''}
   \<and> spec_parse ''run -About running'' = {''run''}
   \<and> tokens (''  '' @ ''org:Acme'' @ '' -x'') = ''org:Acme'' # tokens '' -x''"
proof -
  have h: "set (map (map tolower) (tokens ''RUNNING  Run -about run''))
     = set (map (map tolower) (tokens ''run -About running''))"
    by code_simp
  have e: "parse ''run -About running'' = {''run''}" by code_simp
  have s: "(\<forall>c \<in> set ''  ''. isspace c) \<and> ''org:Acme'' \<noteq> [] \<and>
     (\<forall>c \<in> set ''org:Acme''. \<not> isspace c) \<and> ('' -x'' = [] \<or> isspace (hd '' -x''))"
    by (simp add: isspace_def)
  from parse_refines_spec [of "''run -About running''"]
  have 1: "parse ''run -About running'' = spec_parse ''run -About running''"
    and 2: "set (map (map tolower) (tokens ''RUNNING  Run -about run''))
        = set (map (map tolower) (tokens ''run -About running''))
      \<longrightarrow> parse ''RUNNING  Run -about run'' = parse ''run -About running''"
    and 3: "(\<forall>c \<in> set ''  ''. isspace c) \<and> ''org:Acme'' \<noteq> [] \<and>
        (\<forall>c \<in> set ''org:Acme''. \<not> isspace c) \<and> ('' -x'' = [] \<or> isspace (hd '' -x''))
      \<longrightarrow> tokens (''  '' @ ''org:Acme'' @ '' -x'') = ''org:Acme'' # tokens '' -x''"
    by blast+
  from 1 e have "spec_parse ''run -About running'' = {''run''}" by simp
  with 2 3 h e s show ?thesis by blast
qed

section \<open>Proofs: ingestion\<close>

lemma docs_of_eq:
  "docs_of t x = (case find_value t x of None \<Rightarrow> {} | Some files \<Rightarrow> fst ` set files)"
  by (cases "find_node t x") (simp_all add: docs_of_def find_into_def find_value_def)

lemma increment_docs: "fst ` set (increment files f) = Set.insert f (fst ` set files)"
  by (simp add: increment_def dom_update)

lemma associate_ok:
  assumes "avl t" "bst t"
  shows "\<exists>t'. associate t x f = Some t' \<and> avl t' \<and> bst t'
     \<and> docs_of t' x = Set.insert f (docs_of t x)
     \<and> (\<forall>y. y \<noteq> x \<longrightarrow> docs_of t' y = docs_of t y)"
proof -
  let ?files = "if \<not> fst (find_into t x []) then [] else snd (find_into t x [])"
  have a: "associate t x f = insert_node t x (increment ?files f)"
    by (simp add: associate_def Let_def split: prod.splits)
  from insert_node_avl [OF assms(1), of x "increment ?files f"]
  obtain t' where t': "insert_node t x (increment ?files f) = Some t'" "avl t'" by blast
  from insert_node_bst [OF assms(2) t'(1)]
  have b: "bst t'" and f: "\<And>y. find_value t' y = (if y = x then Some (increment ?files f) else find_value t y)"
    by simp_all
  have "fst ` set ?files = docs_of t x"
    by (cases "find_node t x") (simp_all add: docs_of_def find_into_def)
  then have "docs_of t' x = Set.insert f (docs_of t x)"
    by (simp add: docs_of_eq [of t'] f increment_docs)
  moreover have "\<forall>y. y \<noteq> x \<longrightarrow> docs_of t' y = docs_of t y"
    by (simp add: docs_of_eq f)
  ultimately show ?thesis using a t' b by simp
qed

lemma associateWord_ok:
  assumes "wf_WordMap wm" "word \<noteq> []"
  shows "\<exists>wm'. associateWord wm word f = Some wm' \<and> wf_WordMap wm'
     \<and> f \<in> docs_of (wordIndex wm') word
     \<and> (\<forall>y. docs_of (wordIndex wm) y \<subseteq> docs_of (wordIndex wm') y)"
proof -
  from assms(1) have "avl (wordIndex wm)" "bst (wordIndex wm)" by (simp_all add: wf_WordMap_def)
  from associate_ok [OF this, of word f] obtain t' where
    t': "associate (wordIndex wm) word f = Some t'" "avl t'" "bst t'"
    "docs_of t' word = Set.insert f (docs_of (wordIndex wm) word)"
    "\<forall>y. y \<noteq> word \<longrightarrow> docs_of t' y = docs_of (wordIndex wm) y" by blast
  have "\<forall>y. docs_of (wordIndex wm) y \<subseteq> docs_of t' y"
  proof
    fix y show "docs_of (wordIndex wm) y \<subseteq> docs_of t' y"
      using t'(4,5) by (cases "y = word") auto
  qed
  with t' assms show ?thesis by (simp add: associateWord_def wf_WordMap_def)
qed

lemma associateOrg_ok:
  assumes "wf_WordMap wm"
  shows "\<exists>wm'. associateOrg wm org f = Some wm' \<and> wf_WordMap wm' \<and> wordIndex wm' = wordIndex wm"
proof -
  from assms have "avl (orgIndex wm)" "bst (orgIndex wm)" by (simp_all add: wf_WordMap_def)
  from associate_ok [OF this, of org f] obtain t' where
    "associate (orgIndex wm) org f = Some t'" "avl t'" "bst t'" by blast
  with assms show ?thesis by (simp add: associateOrg_def wf_WordMap_def)
qed

lemma associateName_ok:
  assumes "wf_WordMap wm"
  shows "\<exists>wm'. associateName wm name f = Some wm' \<and> wf_WordMap wm' \<and> wordIndex wm' = wordIndex wm"
proof -
  from assms have "avl (nameIndex wm)" "bst (nameIndex wm)" by (simp_all add: wf_WordMap_def)
  from associate_ok [OF this, of name f] obtain t' where
    "associate (nameIndex wm) name f = Some t'" "avl t'" "bst t'" by blast
  with assms show ?thesis by (simp add: associateName_def wf_WordMap_def)
qed

lemma index_orgs_ok:
  "wf_WordMap wm \<Longrightarrow>
   \<exists>wm'. index_orgs wm ws f = Some wm' \<and> wf_WordMap wm' \<and> wordIndex wm' = wordIndex wm"
proof (induction ws arbitrary: wm)
  case Nil
  then show ?case by simp
next
  case (Cons w ws)
  from associateOrg_ok [OF Cons.prems, of "map tolower w" f] obtain wm1 where
    1: "associateOrg wm (map tolower w) f = Some wm1" "wf_WordMap wm1" "wordIndex wm1 = wordIndex wm"
    by blast
  from Cons.IH [OF 1(2)] 1 show ?case by simp
qed

lemma index_names_ok:
  "wf_WordMap wm \<Longrightarrow>
   \<exists>wm'. index_names wm ws f = Some wm' \<and> wf_WordMap wm' \<and> wordIndex wm' = wordIndex wm"
proof (induction ws arbitrary: wm)
  case Nil
  then show ?case by simp
next
  case (Cons w ws)
  from associateName_ok [OF Cons.prems, of "map tolower w" f] obtain wm1 where
    1: "associateName wm (map tolower w) f = Some wm1" "wf_WordMap wm1" "wordIndex wm1 = wordIndex wm"
    by blast
  from Cons.IH [OF 1(2)] 1 show ?case by simp
qed

lemma index_words_ok:
  "wf_WordMap wm \<Longrightarrow>
   \<exists>wm'. index_words wm ws f = Some wm' \<and> wf_WordMap wm'
     \<and> (\<forall>y. docs_of (wordIndex wm) y \<subseteq> docs_of (wordIndex wm') y)
     \<and> (\<forall>w \<in> set ws. processWord w \<noteq> [] \<longrightarrow> f \<in> docs_of (wordIndex wm') (processWord w))"
proof (induction ws arbitrary: wm)
  case Nil
  then show ?case by simp
next
  case (Cons w ws)
  show ?case
  proof (cases "processWord w = []")
    case True
    with Cons.IH [OF Cons.prems] show ?thesis by simp
  next
    case False
    from associateWord_ok [OF Cons.prems False, of f] obtain wm1 where
      1: "associateWord wm (processWord w) f = Some wm1" "wf_WordMap wm1"
      "f \<in> docs_of (wordIndex wm1) (processWord w)"
      "\<forall>y. docs_of (wordIndex wm) y \<subseteq> docs_of (wordIndex wm1) y" by blast
    from Cons.IH [OF 1(2)] obtain wm' where
      2: "index_words wm1 ws f = Some wm'" "wf_WordMap wm'"
      "\<forall>y. docs_of (wordIndex wm1) y \<subseteq> docs_of (wordIndex wm') y"
      "\<forall>w \<in> set ws. processWord w \<noteq> [] \<longrightarrow> f \<in> docs_of (wordIndex wm') (processWord w)" by blast
    from 1(3,4) 2(3) have "f \<in> docs_of (wordIndex wm') (processWord w)"
      "\<forall>y. docs_of (wordIndex wm) y \<subseteq> docs_of (wordIndex wm') y" by blast+
    with False 1(1) 2 show ?thesis by simp
  qed
qed

lemma buildFromScratch_ok:
  "wf_WordMap wm \<Longrightarrow>
   \<exists>wm'. buildFromScratch wm corpus = Some wm' \<and> wf_WordMap wm'
     \<and> (\<forall>y. docs_of (wordIndex wm) y \<subseteq> docs_of (wordIndex wm') y)
     \<and> (\<forall>(f, orgs, persons, body) \<in> set corpus. \<forall>w \<in> set body.
           processWord w \<noteq> [] \<longrightarrow> f \<in> docs_of (wordIndex wm') (processWord w))"
proof (induction corpus arbitrary: wm)
  case Nil
  then show ?case by simp
next
  case (Cons e corpus)
  obtain f orgs persons body where e: "e = (f, orgs, persons, body)" by (cases e)
  from index_orgs_ok [OF Cons.prems, of orgs f] obtain wm1 where
    1: "index_orgs wm orgs f = Some wm1" "wf_WordMap wm1" "wordIndex wm1 = wordIndex wm" by blast
  from index_names_ok [OF 1(2), of persons f] obtain wm2 where
    2: "index_names wm1 persons f = Some wm2" "wf_WordMap wm2" "wordIndex wm2 = wordIndex wm1" by blast
  from index_words_ok [OF 2(2), of body f] obtain wm3 where
    3: "index_words wm2 body f = Some wm3" "wf_WordMap wm3"
    "\<forall>y. docs_of (wordIndex wm2) y \<subseteq> docs_of (wordIndex wm3) y"
    "\<forall>w \<in> set body. processWord w \<noteq> [] \<longrightarrow> f \<in> docs_of (wordIndex wm3) (processWord w)" by blast
  from Cons.IH [OF 3(2)] obtain wm' where
    4: "buildFromScratch wm3 corpus = Some wm'" "wf_WordMap wm'"
    "\<forall>y. docs_of (wordIndex wm3) y \<subseteq> docs_of (wordIndex wm') y"
    "\<forall>(f, orgs, persons, body) \<in> set corpus. \<forall>w \<in> set body.
           processWord w \<noteq> [] \<longrightarrow> f \<in> docs_of (wordIndex wm') (processWord w)" by blast
  have b: "buildFromScratch wm (e # corpus) = Some wm'" using e 1 2 3 4 by simp
  have m: "\<forall>y. docs_of (wordIndex wm) y \<subseteq> docs_of (wordIndex wm') y"
    using 1(3) 2(3) 3(3) 4(3) by auto
  have h: "\<forall>w \<in> set body. processWord w \<noteq> [] \<longrightarrow> f \<in> docs_of (wordIndex wm') (processWord w)"
    using 3(4) 4(3) by blast
  from b 4(2) m h 4(4) e show ?case by simp
qed

lemma wf_WordMap_new: "wf_WordMap WordMap_new"
  by (simp add: wf_WordMap_def WordMap_new_def)

lemma getFilesByWord_docs: "fst ` set (getFilesByWord wm word) = docs_of (wordIndex wm) word"
  by (simp add: getFilesByWord_def docs_of_def)

lemma stopwords_lower: "\<forall>s \<in> stopwords. map tolower s = s"
  by code_simp

lemma stopwords_steps: "\<forall>s \<in> stopwords. step1c (step1b (step1a s)) = s"
  by code_simp

lemma stopwords_nonempty: "\<forall>s \<in> stopwords. s \<noteq> []"
  by code_simp

lemma uppercase_stopword:
  assumes "map tolower w \<in> stopwords" "map tolower w \<noteq> w"
  shows "processWord w = stem w" "stem w \<noteq> []" "2 < length w \<Longrightarrow> stem w = map tolower w"
    "length w \<le> 2 \<Longrightarrow> stem w = w"
proof -
  from assms stopwords_lower have "w \<notin> stopwords" by auto
  then show "processWord w = stem w" by (simp add: processWord_def isStopword_def)
  show l: "2 < length w \<Longrightarrow> stem w = map tolower w"
    using assms(1) stopwords_steps by (simp add: stem_def)
  show s: "length w \<le> 2 \<Longrightarrow> stem w = w" by (simp add: stem_def)
  from assms(1) stopwords_nonempty have "map tolower w \<noteq> []" by auto
  then have "w \<noteq> []" by simp
  with l s show "stem w \<noteq> []" by (cases "2 < length w") auto
qed

text \<open>
  Claim C8 (case-sensitive stopword elision), as amended. The stopwords are all in
  lower case. For a word that contains an upper-case letter (it differs from its
  lower-case form) and whose lower-case form is a stopword, \<open>processWord\<close> returns
  the stem of the word, which is not empty: the lower-case form of the word when the
  word has more than two characters, the word itself when it has at most two. A
  corpus that holds the word among the body words of a file is indexed by
  \<open>buildFromScratch\<close>, from a new \<open>WordMap\<close>, with that file listed under the stem.
\<close>

theorem uppercase_stopword_indexed:
  assumes "map tolower w \<in> stopwords" and "map tolower w \<noteq> w"
  shows "(\<forall>s \<in> stopwords. map tolower s = s)
    \<and> processWord w = stem w \<and> stem w \<noteq> []
    \<and> (2 < length w \<longrightarrow> stem w = map tolower w)
    \<and> (length w \<le> 2 \<longrightarrow> stem w = w)
    \<and> (\<forall>corpus filePath orgs persons body.
          (filePath, orgs, persons, body) \<in> set corpus \<and> w \<in> set body \<longrightarrow>
          (\<exists>wm. buildFromScratch WordMap_new corpus = Some wm
                \<and> filePath \<in> fst ` set (getFilesByWord wm (stem w))))"
proof -
  note u = uppercase_stopword [OF assms]
  have "\<exists>wm. buildFromScratch WordMap_new corpus = Some wm
                \<and> filePath \<in> fst ` set (getFilesByWord wm (stem w))"
    if c: "(filePath, orgs, persons, body) \<in> set corpus" "w \<in> set body"
    for corpus filePath orgs persons body
  proof -
    from buildFromScratch_ok [OF wf_WordMap_new, of corpus] obtain wm where
      wm: "buildFromScratch WordMap_new corpus = Some wm"
      "\<forall>(f, orgs, persons, body) \<in> set corpus. \<forall>w \<in> set body.
           processWord w \<noteq> [] \<longrightarrow> f \<in> docs_of (wordIndex wm) (processWord w)" by blast
    from wm(2) c have "processWord w \<noteq> [] \<longrightarrow> filePath \<in> docs_of (wordIndex wm) (processWord w)"
      by fast
    with u(1,2) have "filePath \<in> docs_of (wordIndex wm) (stem w)" by simp
    with wm(1) show ?thesis by (auto simp: getFilesByWord_docs)
  qed
  with u stopwords_lower show ?thesis by blast
qed


theorem uppercase_stopword_indexed_witness:
  "map tolower ''About'' \<in> stopwords \<and> map tolower ''About'' \<noteq> ''About''
   \<and> processWord ''About'' = ''about''
   \<and> (\<exists>wm. buildFromScratch WordMap_new [(''doc1.json'', [''ACME''], [], [''About'', ''profits''])]
             = Some wm
          \<and> ''doc1.json'' \<in> fst ` set (getFilesByWord wm ''about''))"
proof -
  have h: "map tolower ''About'' \<in> stopwords" "map tolower ''About'' \<noteq> ''About''"
    by code_simp+
  have s: "stem ''About'' = ''about''" by code_simp
  have c: "(''doc1.json'', [''ACME''], [], [''About'', ''profits''])
      \<in> set [(''doc1.json'', [''ACME''], [], [''About'', ''profits''])] \<and>
     ''About'' \<in> set [''About'', ''profits'']" by simp
  from uppercase_stopword_indexed [OF h] c show ?thesis unfolding s using h by blast
qed

text \<open>
  The claim as stated fails for \<open>An\<close>: its lower-case form is a stopword, and
  \<open>processWord\<close> returns \<open>An\<close> itself, which is not lower case and not the stem of \<open>an\<close>.
\<close>

theorem uppercase_stopword_counterexample:
  "map tolower ''An'' \<in> stopwords \<and> map tolower ''An'' \<noteq> ''An''
   \<and> processWord ''An'' = ''An'' \<and> processWord ''An'' \<noteq> stem (map tolower ''An'')
   \<and> map tolower (processWord ''An'') \<noteq> processWord ''An''"
  by code_simp

section \<open>Proofs: the load of the index manager\<close>

declare spec_decode_postings.simps [simp del] spec_decode.simps [simp del]

lemma spec_read_Some:
  "spec_read n b = Some (x, r) \<longleftrightarrow> n \<le> length b \<and> x = take n b \<and> r = drop n b"
  by (auto simp: spec_read_def)

lemma spec_decode_postings_length:
  "spec_decode_postings n b = Some (ps, r) \<Longrightarrow> length r \<le> length b"
proof (induction n b arbitrary: ps r rule: spec_decode_postings.induct)
  case (1 n bytes)
  show ?case
  proof (cases "n = 0")
    case True
    with "1.prems" show ?thesis by (simp add: spec_decode_postings.simps [of 0 bytes])
  next
    case False
    with "1.prems" obtain lenBytes b1 doc b2 countBytes b3 ps' where
      r: "spec_read 8 bytes = Some (lenBytes, b1)" "spec_read (from_le lenBytes) b1 = Some (doc, b2)"
         "spec_read 8 b2 = Some (countBytes, b3)"
         "spec_decode_postings (n - 1) b3 = Some (ps', r)"
      by (auto simp: spec_decode_postings.simps [of n bytes] split: option.splits prod.splits)
    from "1.IH" [OF False r(1) refl r(2) refl r(3) refl r(4)] have "length r \<le> length b3" .
    with r(1,2,3) show ?thesis by (auto simp: spec_read_Some)
  qed
qed

lemma spec_decode_rest_shorter:
  assumes "spec_read 8 bytes = Some (lenBytes, bytes1)"
    and "spec_read n bytes1 = Some (key, bytes2)"
    and "spec_read 8 bytes2 = Some (countBytes, bytes3)"
    and "spec_decode_postings m bytes3 = Some (ps, rest)"
  shows "length rest < length bytes"
  using assms spec_decode_postings_length [OF assms(4)] by (auto simp: spec_read_Some)

text \<open>Every file in the format decodes to the entries it was written from.\<close>

lemma from_le_le_bytes: "x < 256 ^ n \<Longrightarrow> from_le (le_bytes n x) = x"
proof (induction n arbitrary: x)
  case 0
  then show ?case by simp
next
  case (Suc n)
  then have "x div 256 < 256 ^ n" by (simp add: less_mult_imp_div_less mult.commute)
  with Suc.IH [of "x div 256"] show ?case by simp
qed

lemma spec_read_append: "length x = n \<Longrightarrow> spec_read n (x @ r) = Some (x, r)"
  by (simp add: spec_read_def)

lemma decode_postings_roundtrip:
  "\<forall>p \<in> set ps. length (fst p) < 2 ^ 64 \<Longrightarrow>
   spec_decode_postings (length ps) (concat (map spec_posting_bytes ps) @ rest) = Some (ps, rest)"
proof (induction ps)
  case Nil
  show ?case by (simp add: spec_decode_postings.simps)
next
  case (Cons p ps)
  obtain d c where p: "p = (d, c)" by (cases p)
  from Cons.prems p have d: "length d < 256 ^ 8" by simp
  have c: "unat c < 256 ^ 8" using unsigned_less [of c, where ?'a = nat] by simp
  have w: "word_of_nat (from_le (le_bytes 8 (unat c))) = c"
    by (simp only: from_le_le_bytes [OF c]) simp
  have h: "spec_posting_bytes (d, c) = le_bytes 8 (length d) @ d @ le_bytes 8 (unat c)"
    by (simp add: spec_posting_bytes_def)
  from Cons have ih: "spec_decode_postings (length ps) (concat (map spec_posting_bytes ps) @ rest)
      = Some (ps, rest)" by simp
  show ?case unfolding p
    by (subst spec_decode_postings.simps)
       (simp add: h spec_read_append length_le_bytes from_le_le_bytes [OF d] ih w)
qed


lemma spec_decode_Nil: "spec_decode [] = Some []"
  by (simp add: spec_decode.simps)

lemma spec_decode_roundtrip:
  "\<forall>e \<in> set entries. length (fst e) < 2 ^ 64 \<and> length (snd e) < 2 ^ 64
      \<and> (\<forall>p \<in> set (snd e). length (fst p) < 2 ^ 64) \<Longrightarrow>
   spec_decode (spec_format entries) = Some entries"
proof (induction entries)
  case Nil
  show ?case by (simp add: spec_format_def spec_decode_Nil)
next
  case (Cons e entries)
  obtain k ps where e: "e = (k, ps)" by (cases e)
  from Cons.prems e have k: "length k < 256 ^ 8" and n: "length ps < 256 ^ 8"
    and ps: "\<forall>p \<in> set ps. length (fst p) < 2 ^ 64" by simp_all
  from Cons have ih: "spec_decode (spec_format entries) = Some entries" by simp
  let ?rest = "spec_format entries"
  have f: "spec_format (e # entries) =
      le_bytes 8 (length k) @ k @ le_bytes 8 (length ps) @ concat (map spec_posting_bytes ps) @ ?rest"
    by (simp add: spec_format_def spec_entry_bytes_def e)
  let ?b = "le_bytes 8 (length k) @ k @ le_bytes 8 (length ps)
      @ concat (map spec_posting_bytes ps) @ ?rest"
  have l: "length ?rest < length ?b" by (simp add: length_le_bytes)
  then have ne: "?b \<noteq> []" by auto
  have "spec_decode ?b = Some ((k, ps) # entries)"
    by (subst spec_decode.simps)
       (simp only: ne l if_False if_True spec_read_append length_le_bytes
          from_le_le_bytes [OF k] from_le_le_bytes [OF n] decode_postings_roundtrip [OF ps] ih
          option.case prod.case)
  with f e show ?case by simp
qed

lemma load_path_bad:
  "missing_or_corrupt fs p \<Longrightarrow> AVLTree_load_path fs p t = Throws t"
  by (auto simp: missing_or_corrupt_def AVLTree_load_path_def split: option.splits)

lemma load_path_good:
  assumes "\<not> missing_or_corrupt fs p" "avl t" "bst t"
  shows "\<exists>t'. AVLTree_load_path fs p t = Returns t' \<and> avl t' \<and> bst t'"
proof -
  from assms(1) obtain bytes entries where b: "fs p = Some bytes" "spec_decode bytes = Some entries"
    by (auto simp: missing_or_corrupt_def split: option.splits)
  from insert_all_inv [OF assms(2,3), of entries] obtain t' where
    "insert_all t entries = Some t'" "avl t'" "bst t'" by blast
  with b show ?thesis by (simp add: AVLTree_load_path_def)
qed

lemma WordMap_load_True:
  "WordMap_load ld wm fp op np wp sp = Returns (True, wm') \<longleftrightarrow>
     (\<exists>t1 t2 t3. ld op (orgIndex wm) = Returns t1 \<and> ld np (nameIndex wm) = Returns t2
        \<and> ld wp (wordIndex wm) = Returns t3
        \<and> wm' = wm\<lparr>orgIndex := t1, nameIndex := t2, wordIndex := t3\<rparr>)"
  by (auto simp: WordMap_load_def Let_def split: outcome.splits)

lemma WordMap_load_no_throw: "WordMap_load ld wm fp op np wp sp \<noteq> Throws x"
  by (auto simp: WordMap_load_def Let_def split: outcome.splits)

lemma WordMap_load_bad:
  assumes wf: "wf_WordMap wm"
    and bad: "missing_or_corrupt fs op \<or> missing_or_corrupt fs np \<or> missing_or_corrupt fs wp"
  shows "\<exists>wm'. WordMap_load (AVLTree_load_path fs) wm fp op np wp sp = Returns (False, wm')"
proof (cases "missing_or_corrupt fs op")
  case True
  then show ?thesis by (simp add: WordMap_load_def load_path_bad)
next
  case o: False
  from wf have "avl (orgIndex wm)" "bst (orgIndex wm)" by (simp_all add: wf_WordMap_def)
  from load_path_good [OF o this] obtain t1 where
    t1: "AVLTree_load_path fs op (orgIndex wm) = Returns t1" by blast
  show ?thesis
  proof (cases "missing_or_corrupt fs np")
    case True
    with t1 show ?thesis by (simp add: WordMap_load_def load_path_bad)
  next
    case n: False
    from wf have "avl (nameIndex wm)" "bst (nameIndex wm)" by (simp_all add: wf_WordMap_def)
    from load_path_good [OF n this] obtain t2 where
      t2: "AVLTree_load_path fs np (nameIndex wm) = Returns t2" by blast
    from o n bad have "missing_or_corrupt fs wp" by simp
    with t1 t2 show ?thesis by (simp add: WordMap_load_def load_path_bad)
  qed
qed

text \<open>
  Claim C2 (the load of the index manager is all-or-nothing). \<open>WordMap::load\<close> returns
  \<open>true\<close> exactly when the loads of all three indices return, and the \<open>WordMap\<close> then
  holds the three loaded trees; no exception leaves it; when the load of an index
  throws, the loads before it having returned, it returns \<open>false\<close>. With the load of an
  index as the specification describes it, and indices that satisfy the tree
  invariants, it returns \<open>false\<close> whenever one of the three files is missing or does
  not decode.
\<close>

theorem WordMap_load_all_or_nothing:
  "(\<forall>wm'. WordMap_load index_load wm filenamepath osavePath nsavePath wsavePath fsavePath
            = Returns (True, wm') \<longleftrightarrow>
          (\<exists>t1 t2 t3. index_load osavePath (orgIndex wm) = Returns t1
             \<and> index_load nsavePath (nameIndex wm) = Returns t2
             \<and> index_load wsavePath (wordIndex wm) = Returns t3
             \<and> wm' = wm\<lparr>orgIndex := t1, nameIndex := t2, wordIndex := t3\<rparr>))
   \<and> (\<forall>wm'. WordMap_load index_load wm filenamepath osavePath nsavePath wsavePath fsavePath
            \<noteq> Throws wm')
   \<and> (\<forall>t. index_load osavePath (orgIndex wm) = Throws t
          \<or> (\<exists>t1. index_load osavePath (orgIndex wm) = Returns t1)
              \<and> index_load nsavePath (nameIndex wm) = Throws t
          \<or> (\<exists>t1 t2. index_load osavePath (orgIndex wm) = Returns t1
                 \<and> index_load nsavePath (nameIndex wm) = Returns t2)
              \<and> index_load wsavePath (wordIndex wm) = Throws t
        \<longrightarrow> (\<exists>wm'. WordMap_load index_load wm filenamepath osavePath nsavePath wsavePath fsavePath
                    = Returns (False, wm')))
   \<and> (wf_WordMap wm
        \<and> (missing_or_corrupt fs osavePath \<or> missing_or_corrupt fs nsavePath
             \<or> missing_or_corrupt fs wsavePath)
        \<longrightarrow> (\<exists>wm'. WordMap_load (AVLTree_load_path fs) wm
                     filenamepath osavePath nsavePath wsavePath fsavePath = Returns (False, wm')))"
proof -
  have "\<exists>wm'. WordMap_load index_load wm filenamepath osavePath nsavePath wsavePath fsavePath
                    = Returns (False, wm')"
    if "index_load osavePath (orgIndex wm) = Throws t
          \<or> (\<exists>t1. index_load osavePath (orgIndex wm) = Returns t1)
              \<and> index_load nsavePath (nameIndex wm) = Throws t
          \<or> (\<exists>t1 t2. index_load osavePath (orgIndex wm) = Returns t1
                 \<and> index_load nsavePath (nameIndex wm) = Returns t2)
              \<and> index_load wsavePath (wordIndex wm) = Throws t" for t
    using that by (auto simp: WordMap_load_def Let_def)
  then show ?thesis
    using WordMap_load_True [of index_load wm filenamepath osavePath nsavePath wsavePath fsavePath]
      WordMap_load_no_throw [of index_load wm filenamepath osavePath nsavePath wsavePath fsavePath]
      WordMap_load_bad [of wm fs osavePath nsavePath wsavePath filenamepath fsavePath]
    by blast
qed

theorem WordMap_load_all_or_nothing_witness:
  "wf_WordMap WordMap_new \<and> missing_or_corrupt Map.empty ''org.dat''
   \<and> (\<exists>wm'. WordMap_load (AVLTree_load_path Map.empty) WordMap_new
          ''index.dat'' ''org.dat'' ''name.dat'' ''word.dat'' ''freq.dat'' = Returns (False, wm'))
   \<and> missing_or_corrupt
        [''org.dat'' \<mapsto> spec_format [(''acme'', [(''d1'', 2)])], ''name.dat'' \<mapsto> [],
         ''word.dat'' \<mapsto> ''xyz''] ''word.dat''
   \<and> (\<exists>wm'. WordMap_load (AVLTree_load_path
          [''org.dat'' \<mapsto> spec_format [(''acme'', [(''d1'', 2)])], ''name.dat'' \<mapsto> [],
           ''word.dat'' \<mapsto> ''xyz'']) WordMap_new
          ''index.dat'' ''org.dat'' ''name.dat'' ''word.dat'' ''freq.dat'' = Returns (False, wm'))
   \<and> WordMap_load (AVLTree_load_path
          [''org.dat'' \<mapsto> spec_format [(''acme'', [(''d1'', 2)])], ''name.dat'' \<mapsto> [],
           ''word.dat'' \<mapsto> spec_format [(''run'', [(''d1'', 1)]), (''profit'', [])]]) WordMap_new
          ''index.dat'' ''org.dat'' ''name.dat'' ''word.dat'' ''freq.dat''
       = Returns (True, \<lparr>orgIndex = Node ''acme'' [(''d1'', 2)] 1 Null Null, nameIndex = Null,
           wordIndex = Node ''run'' [(''d1'', 1)] 2 (Node ''profit'' [] 1 Null Null) Null\<rparr>)"
proof -
  have w: "wf_WordMap WordMap_new" by (simp add: wf_WordMap_def WordMap_new_def)
  have m1: "missing_or_corrupt Map.empty ''org.dat''" by (simp add: missing_or_corrupt_def)
  have m2: "missing_or_corrupt
        [''org.dat'' \<mapsto> spec_format [(''acme'', [(''d1'', 2)])], ''name.dat'' \<mapsto> [],
         ''word.dat'' \<mapsto> ''xyz''] ''word.dat''"
    by code_simp
  have g: "WordMap_load (AVLTree_load_path
          [''org.dat'' \<mapsto> spec_format [(''acme'', [(''d1'', 2)])], ''name.dat'' \<mapsto> [],
           ''word.dat'' \<mapsto> spec_format [(''run'', [(''d1'', 1)]), (''profit'', [])]]) WordMap_new
          ''index.dat'' ''org.dat'' ''name.dat'' ''word.dat'' ''freq.dat''
       = Returns (True, \<lparr>orgIndex = Node ''acme'' [(''d1'', 2)] 1 Null Null, nameIndex = Null,
           wordIndex = Node ''run'' [(''d1'', 1)] 2 (Node ''profit'' [] 1 Null Null) Null\<rparr>)"
    by code_simp
  from WordMap_load_all_or_nothing [of "AVLTree_load_path Map.empty" WordMap_new
      "''index.dat''" "''org.dat''" "''name.dat''" "''word.dat''" "''freq.dat''" Map.empty] w m1
  have 1: "\<exists>wm'. WordMap_load (AVLTree_load_path Map.empty) WordMap_new
          ''index.dat'' ''org.dat'' ''name.dat'' ''word.dat'' ''freq.dat'' = Returns (False, wm')"
    by blast
  let ?fs = "[''org.dat'' \<mapsto> spec_format [(''acme'', [(''d1'', 2)])], ''name.dat'' \<mapsto> [],
         ''word.dat'' \<mapsto> ''xyz'']"
  from WordMap_load_all_or_nothing [of "AVLTree_load_path ?fs" WordMap_new
      "''index.dat''" "''org.dat''" "''name.dat''" "''word.dat''" "''freq.dat''" ?fs] w m2
  have 2: "\<exists>wm'. WordMap_load (AVLTree_load_path ?fs) WordMap_new
          ''index.dat'' ''org.dat'' ''name.dat'' ''word.dat'' ''freq.dat'' = Returns (False, wm')"
    by blast
  from w m1 m2 1 2 g show ?thesis by blast
qed

end
